theory Spec2Isabelle
  imports Complex_Main "HOL-Library.Sublist" "HOL-Library.AList" "HOL-Library.Multiset"
begin

section \<open>Strings\<close>

text \<open>
  A JavaScript string is a sequence of UTF-16 code units. The model uses \<^typ>\<open>string\<close>,
  whose characters are the code units below 256 (the Latin-1 range); on that range the
  character classes and case mappings below are the ones of ECMAScript.
\<close>

definition is_space :: "char \<Rightarrow> bool" where
  \<comment> \<open>the regular expression class \<open>\s\<close>: tab, LF, VT, FF, CR, space and U+00A0\<close>
  "is_space c = (let n = (of_char c :: nat) in (9 \<le> n \<and> n \<le> 13) \<or> n = 32 \<or> n = 160)"

definition is_digit :: "char \<Rightarrow> bool" where
  \<comment> \<open>the class \<open>\d\<close>, which is \<open>[0-9]\<close>\<close>
  "is_digit c = (let n = (of_char c :: nat) in 48 \<le> n \<and> n \<le> 57)"

definition is_lower :: "char \<Rightarrow> bool" where
  \<comment> \<open>the class \<open>[a-z]\<close>\<close>
  "is_lower c = (let n = (of_char c :: nat) in 97 \<le> n \<and> n \<le> 122)"

definition is_word_char :: "char \<Rightarrow> bool" where
  \<comment> \<open>the class \<open>\w\<close>, which is \<open>[A-Za-z0-9_]\<close>\<close>
  "is_word_char c =
     (let n = (of_char c :: nat)
      in (65 \<le> n \<and> n \<le> 90) \<or> (97 \<le> n \<and> n \<le> 122) \<or> (48 \<le> n \<and> n \<le> 57) \<or> n = 95)"

definition lower_char :: "char \<Rightarrow> char" where
  \<comment> \<open>\<open>toLowerCase\<close> on one code unit: A-Z, and U+00C0..U+00DE except the
      multiplication sign U+00D7, move up by 32\<close>
  "lower_char c =
     (let n = (of_char c :: nat)
      in if (65 \<le> n \<and> n \<le> 90) \<or> (192 \<le> n \<and> n \<le> 222 \<and> n \<noteq> 215)
         then char_of (n + 32) else c)"

definition toLowerCase :: "string \<Rightarrow> string" where
  "toLowerCase s = map lower_char s"

definition upper_word_char :: "char \<Rightarrow> char" where
  \<comment> \<open>\<open>toUpperCase\<close> on a code unit of the class \<open>\w\<close>: a-z move down by 32\<close>
  "upper_word_char c =
     (let n = (of_char c :: nat) in if 97 \<le> n \<and> n \<le> 122 then char_of (n - 32) else c)"

fun str_includes :: "string \<Rightarrow> string \<Rightarrow> bool" where
  \<comment> \<open>\<open>hay.includes(needle)\<close>\<close>
  "str_includes [] needle = (needle = [])"
| "str_includes (c # cs) needle = (prefix needle (c # cs) \<or> str_includes cs needle)"

definition trim :: "string \<Rightarrow> string" where
  "trim s = rev (dropWhile is_space (rev (dropWhile is_space s)))"

function split_ws :: "string \<Rightarrow> string list" where
  \<comment> \<open>\<open>s.split(/\s+/)\<close>: the pieces between maximal runs of white space, with an empty
      piece before a leading run and after a trailing one; the empty string gives one
      empty piece\<close>
  "split_ws s =
     (let piece = takeWhile (\<lambda>c. \<not> is_space c) s;
          rest = dropWhile (\<lambda>c. \<not> is_space c) s
      in if rest = [] then [piece] else piece # split_ws (dropWhile is_space rest))"
  by pat_completeness auto
termination
proof (relation "measure length")
  fix s piece rest
  assume r: "rest = dropWhile (\<lambda>c. \<not> is_space c) s" and ne: "rest \<noteq> []"
  from ne obtain c cs where rc: "rest = c # cs" by (cases rest) auto
  with r have "is_space c" by (metis dropWhile_eq_Cons_conv)
  with rc have "length (dropWhile is_space rest) \<le> length cs"
    by (simp add: length_dropWhile_le)
  moreover have "length rest \<le> length s" using r by (simp add: length_dropWhile_le)
  ultimately show "(dropWhile is_space rest, s) \<in> measure length" using rc by simp
qed simp

declare split_ws.simps [simp del]

section \<open>Tokenizer\<close>

definition STOP_WORDS :: "string list" where
  "STOP_WORDS =
    [''the'', ''a'', ''an'', ''and'', ''or'', ''but'', ''if'', ''in'', ''on'', ''for'',
     ''with'', ''of'', ''to'', ''by'', ''from'', ''about'', ''is'', ''are'', ''was'',
     ''were'', ''be'', ''this'', ''that'', ''those'', ''these'', ''you'', ''your'',
     ''into'', ''how'', ''what'', ''why'', ''when'', ''where'', ''can'', ''should'',
     ''will'', ''new'', ''latest'', ''best'', ''top'', ''2024'', ''2025'', ''video'',
     ''official'']"

definition strip_char :: "char \<Rightarrow> char" where
  \<comment> \<open>one step of \<open>replace(/[^a-z0-9\s]/g, " ")\<close>\<close>
  "strip_char c = (if is_lower c \<or> is_digit c \<or> is_space c then c else CHR '' '')"

definition keep_word :: "string \<Rightarrow> bool" where
  \<comment> \<open>the filter \<open>word && !STOP_WORDS.has(word) && word.length > 2\<close>\<close>
  "keep_word w = (w \<noteq> [] \<and> w \<notin> set STOP_WORDS \<and> length w > 2)"

definition tokenize :: "string \<Rightarrow> string list" where
  "tokenize text = filter keep_word (split_ws (map strip_char (toLowerCase text)))"

fun join :: "string \<Rightarrow> string list \<Rightarrow> string" where
  \<comment> \<open>\<open>ws.join(sep)\<close>\<close>
  "join sep [] = []"
| "join sep [w] = w"
| "join sep (w # v # ws) = w @ sep @ join sep (v # ws)"

section \<open>Maps and sorting\<close>

text \<open>
  A JavaScript \<open>Map\<close> iterates in insertion order, so it is an association list:
  \<open>m.get(k)\<close> is \<^term>\<open>map_of m k\<close>, \<open>m.has(k)\<close> is \<^term>\<open>map_of m k \<noteq> None\<close>, and
  \<open>m.set(k, v)\<close> is \<^term>\<open>AList.update k v m\<close>, which replaces the value of a present key where
  it stands and appends an absent key at the end.

  \<open>Array.prototype.sort(cmp)\<close> is stable; for a comparator that is a difference of keys
  its result is the one of the insertion sort below, which puts an element in front of the
  first element it does not have to follow.
\<close>

fun insert_by :: "('a \<Rightarrow> 'a \<Rightarrow> 'n::linordered_idom) \<Rightarrow> 'a \<Rightarrow> 'a list \<Rightarrow> 'a list" where
  "insert_by cmp x [] = [x]"
| "insert_by cmp x (y # ys) = (if cmp x y \<le> 0 then x # y # ys else y # insert_by cmp x ys)"

definition sort_by :: "('a \<Rightarrow> 'a \<Rightarrow> 'n::linordered_idom) \<Rightarrow> 'a list \<Rightarrow> 'a list" where
  "sort_by cmp xs = foldr (insert_by cmp) xs []"

section \<open>Keyword aggregation\<close>

definition count_word :: "string \<Rightarrow> (string \<times> nat) list \<Rightarrow> (string \<times> nat) list" where
  \<comment> \<open>\<open>freq.set(word, (freq.get(word) ?? 0) + 1)\<close>\<close>
  "count_word word freq =
     AList.update word ((case map_of freq word of None \<Rightarrow> 0 | Some c \<Rightarrow> c) + 1) freq"

definition word_freq :: "string list \<Rightarrow> (string \<times> nat) list" where
  \<comment> \<open>the map \<open>freq\<close> once every word of every text is counted\<close>
  "word_freq texts = fold (\<lambda>text freq. fold count_word (tokenize text) freq) texts []"

definition aggregateKeywords :: "string list \<Rightarrow> string list" where
  "aggregateKeywords texts =
     map fst (take 10 (sort_by (\<lambda>a b. int (snd b) - int (snd a)) (word_freq texts)))"

section \<open>Age descriptors\<close>

definition timeUnitToMinutes :: "string \<Rightarrow> real" where
  "timeUnitToMinutes unit =
     (if unit = ''second'' then 1 / 60
      else if unit = ''minute'' then 1
      else if unit = ''hour'' then 60
      else if unit = ''day'' then 60 * 24
      else if unit = ''week'' then 60 * 24 * 7
      else if unit = ''month'' then 60 * 24 * 30
      else if unit = ''year'' then 60 * 24 * 365
      else 60 * 24)"

definition TIME_UNITS :: "string list" where
  \<comment> \<open>the alternation \<open>(second|minute|hour|day|week|month|year)\<close>, in its order\<close>
  "TIME_UNITS = [''second'', ''minute'', ''hour'', ''day'', ''week'', ''month'', ''year'']"

definition match_unit :: "string \<Rightarrow> string option" where
  \<comment> \<open>the first alternative that the text starts with\<close>
  "match_unit s = find (\<lambda>u. prefix u s) TIME_UNITS"

definition parseInt :: "string \<Rightarrow> nat" where
  \<comment> \<open>\<open>Number.parseInt(ds, 10)\<close> on a string of decimal digits\<close>
  "parseInt ds = foldl (\<lambda>n c. 10 * n + (of_char c - 48)) 0 ds"

definition match_age_at :: "string \<Rightarrow> (string \<times> string) option" where
  \<comment> \<open>\<open>/(\d+)\s+(second|minute|hour|day|week|month|year)/\<close> matched at the start of
      \<open>s\<close>, giving the two groups. The greedy runs are the maximal ones: a shorter run
      of digits is followed by a digit, not by white space, and a shorter run of white
      space is followed by white space, which starts no unit.\<close>
  "match_age_at s =
     (let ds = takeWhile is_digit s;
          r = dropWhile is_digit s;
          r' = dropWhile is_space r
      in if ds = [] \<or> length r' = length r then None
         else map_option (\<lambda>u. (ds, u)) (match_unit r'))"

fun search_age :: "string \<Rightarrow> (string \<times> string) option" where
  \<comment> \<open>the leftmost match of the expression in \<open>s\<close>\<close>
  "search_age [] = match_age_at []"
| "search_age (c # cs) =
     (case match_age_at (c # cs) of Some m \<Rightarrow> Some m | None \<Rightarrow> search_age cs)"

definition match_streamed_at :: "string \<Rightarrow> (string \<times> string) option" where
  \<comment> \<open>\<open>/streamed\s+(\d+)\s+(second|minute|hour|day|week|month|year)/\<close> matched at the
      start of \<open>s\<close>\<close>
  "match_streamed_at s =
     (if prefix ''streamed'' s
      then (let r = drop 8 s; r' = dropWhile is_space r
            in if length r' = length r then None else match_age_at r')
      else None)"

fun search_streamed :: "string \<Rightarrow> (string \<times> string) option" where
  "search_streamed [] = match_streamed_at []"
| "search_streamed (c # cs) =
     (case match_streamed_at (c # cs) of Some m \<Rightarrow> Some m | None \<Rightarrow> search_streamed cs)"

definition parseAgeMinutes :: "string option \<Rightarrow> real" where
  \<comment> \<open>numbers are exact: \<open>parseInt\<close> is not rounded to a double\<close>
  "parseAgeMinutes ago =
     (case ago of
        None \<Rightarrow> 60 * 24 * 365
      | Some a \<Rightarrow>
          if a = [] then 60 * 24 * 365
          else
            (let normalized = toLowerCase a in
             case search_age normalized of
               Some (ds, unit) \<Rightarrow> real (parseInt ds) * timeUnitToMinutes unit
             | None \<Rightarrow>
                 if str_includes normalized ''streamed'' \<or> str_includes normalized ''premiered''
                 then (case search_streamed normalized of
                         Some (ds, unit) \<Rightarrow> real (parseInt ds) * timeUnitToMinutes unit
                       | None \<Rightarrow> 60 * 24 * 365)
                 else 60 * 24 * 365))"

section \<open>Candidates and scoring\<close>

record YtAuthor =
  name :: "string option"
  author_url :: "string option"

text \<open>
  The fields of a search result that the handler reads. A view count is a non-negative
  integer.
\<close>

record VideoSearchResult =
  videoId :: "string option"
  url :: string
  title :: string
  description :: "string option"
  image :: "string option"
  thumbnail :: "string option"
  ago :: "string option"
  views :: "nat option"
  author :: "YtAuthor option"

definition view_count :: "VideoSearchResult \<Rightarrow> nat" where
  \<comment> \<open>\<open>video.views ?? 0\<close>\<close>
  "view_count video = (case views video of None \<Rightarrow> 0 | Some n \<Rightarrow> n)"

definition viewScore :: "VideoSearchResult \<Rightarrow> real" where
  "viewScore video = log 10 (real (view_count video) + 1) / 6"

definition ageScore :: "VideoSearchResult \<Rightarrow> real" where
  "ageScore video = exp (- parseAgeMinutes (ago video) / (60 * 24 * 21))"

definition video_text :: "VideoSearchResult \<Rightarrow> string" where
  \<comment> \<open>\<open>`${video.title} ${video.description ?? ""}`.toLowerCase()\<close>\<close>
  "video_text video =
     toLowerCase (title video @ '' '' @ (case description video of None \<Rightarrow> [] | Some d \<Rightarrow> d))"

definition scoreVideo :: "VideoSearchResult \<Rightarrow> string list \<Rightarrow> real \<times> real" where
  \<comment> \<open>the result \<open>{ score, relevance }\<close> as a pair; real arithmetic stands for the
      doubles of the source\<close>
  "scoreVideo video keywords =
     (let text = video_text video;
          matchCount = fold (\<lambda>keyword acc. if str_includes text keyword then acc + 1 else acc)
                         keywords (0::nat);
          relevance = (if length keywords > 0 then real matchCount / real (length keywords)
                       else 3 / 10);
          score = viewScore video * (6 / 10) + ageScore video * (3 / 10) + relevance * (4 / 10)
      in (score, relevance))"

definition map_has_set :: "VideoSearchResult \<Rightarrow> (string \<times> VideoSearchResult) list
    \<Rightarrow> (string \<times> VideoSearchResult) list" where
  \<comment> \<open>the body of the loop of \<open>dedupeVideos\<close>; a missing and an empty identifier are
      both falsy\<close>
  "map_has_set video m =
     (case videoId video of
        None \<Rightarrow> m
      | Some i \<Rightarrow>
          if i = [] then m
          else if map_of m i \<noteq> None then m
          else AList.update i video m)"

definition dedupeVideos :: "VideoSearchResult list \<Rightarrow> VideoSearchResult list" where
  "dedupeVideos videos = map snd (fold map_has_set videos [])"

text \<open>
  An insight without its \<open>highlights\<close>, whose view labels depend on the locale of the
  host.
\<close>

record VideoInsight =
  insight_id :: string
  insight_title :: string
  insight_url :: string
  insight_thumbnail :: string
  channel :: string
  insight_views :: nat
  insight_ago :: string
  insight_description :: string
  score :: real
  relevance :: real

definition or_else :: "'a option \<Rightarrow> 'a \<Rightarrow> 'a" where
  \<comment> \<open>the operator \<open>??\<close>\<close>
  "or_else x d = (case x of None \<Rightarrow> d | Some v \<Rightarrow> v)"

definition to_insight :: "string list \<Rightarrow> VideoSearchResult \<Rightarrow> VideoInsight" where
  "to_insight fallbackTokens video =
     (let r = scoreVideo video fallbackTokens in
      \<lparr> insight_id = or_else (videoId video) (url video),
        insight_title = title video,
        insight_url = url video,
        insight_thumbnail = or_else (thumbnail video) (or_else (image video) []),
        channel = or_else (case author video of None \<Rightarrow> None | Some a \<Rightarrow> name a) ''Unknown'',
        insight_views = or_else (views video) 0,
        insight_ago = or_else (ago video) ''Unknown'',
        insight_description = or_else (description video) [],
        score = fst r,
        relevance = snd r \<rparr>)"

definition insights :: "VideoSearchResult list \<Rightarrow> string list \<Rightarrow> VideoInsight list" where
  \<comment> \<open>the ranked list \<open>insights\<close> of the handler\<close>
  "insights combinedRaw fallbackTokens =
     take 12 (sort_by (\<lambda>a b. score b - score a) (map (to_insight fallbackTokens) combinedRaw))"

section \<open>Specification vocabulary for the keyword ranking\<close>

text \<open>
  The position of the first occurrence of a word in the token stream, the number of its
  occurrences, and the order the ranking is meant to follow: more frequent first, and among
  equally frequent words the one met first.
\<close>


definition first_index :: "'a list \<Rightarrow> 'a \<Rightarrow> nat" where
  "first_index xs x = length (takeWhile (\<lambda>y. y \<noteq> x) xs)"



definition all_tokens :: "string list \<Rightarrow> string list" where
  "all_tokens texts = concat (map tokenize texts)"

definition frequency :: "string list \<Rightarrow> string \<Rightarrow> nat" where
  "frequency texts w = count_list (all_tokens texts) w"

definition ranks_before :: "string list \<Rightarrow> string \<Rightarrow> string \<Rightarrow> bool" where
  "ranks_before texts a b =
     (frequency texts a > frequency texts b \<or>
      (frequency texts a = frequency texts b \<and>
       first_index (all_tokens texts) a < first_index (all_tokens texts) b))"

text \<open>The sorted entries of \<open>aggregateKeywords\<close> before \<open>slice(0, 10)\<close>.\<close>

definition ranked_words :: "string list \<Rightarrow> string list" where
  "ranked_words texts = map fst (sort_by (\<lambda>a b. int (snd b) - int (snd a)) (word_freq texts))"

section \<open>Outline\<close>

record OutlineSegment =
  seg_title :: string
  durationHint :: string
  talkingPoints :: "string list"
  brollIdeas :: "string list"

function show_nat :: "nat \<Rightarrow> string" where
  \<comment> \<open>the decimal digits of a number in a template literal\<close>
  "show_nat n = (if n < 10 then [char_of (48 + n)] else show_nat (n div 10) @ [char_of (48 + n mod 10)])"
  by pat_completeness auto
termination
  by (relation "measure id") auto

declare show_nat.simps [simp del]

definition capitalize_first :: "string \<Rightarrow> string" where
  \<comment> \<open>\<open>theme.replace(/^\w/, (c) => c.toUpperCase())\<close>\<close>
  "capitalize_first theme =
     (case theme of
        [] \<Rightarrow> []
      | c # cs \<Rightarrow> if is_word_char c then upper_word_char c # cs else c # cs)"

definition hook_segment :: "string \<Rightarrow> OutlineSegment" where
  "hook_segment topic =
     \<lparr> seg_title = ''Hook & Context'',
       durationHint = ''0:00 - 0:45'',
       talkingPoints =
         [''Drop an attention-grabbing stat or question that ties '' @ topic @
            '' to the viewer's everyday stakes.'',
          ''Position the problem or opportunity in one sentence.'',
          ''Promise the transformation viewers will get by watching.''],
       brollIdeas =
         [''YouTube analytics dashboard zoom-in'',
          ''Trending article headlines montage'',
          ''Fast-cut reaction shots''] \<rparr>"

definition breakdown_segment :: "nat \<Rightarrow> string \<Rightarrow> OutlineSegment" where
  \<comment> \<open>the segment pushed by the callback of \<open>forEach\<close> for \<open>(theme, index)\<close>\<close>
  "breakdown_segment index theme =
     \<lparr> seg_title = ''Breakdown '' @ show_nat (index + 1) @ '': '' @ capitalize_first theme,
       durationHint =
         (if index = 0 then ''0:45'' else if index = 1 then ''2:30'' else ''4:00'') @ '' - '' @
         (if index = 0 then ''2:30'' else if index = 1 then ''4:00'' else ''5:30''),
       talkingPoints =
         [''Summarize what top creators are saying about '' @ theme @ ''.'',
          ''Call out what worked (hooks, pacing, visuals, CTAs).'',
          ''Explain how your take will evolve or improve that angle.''],
       brollIdeas =
         [''Screen recordings of top videos with animated highlights'',
          ''Overlay of key statistics or quotes'',
          ''Relevant product or scenario footage''] \<rparr>"

definition cta_segment :: OutlineSegment where
  "cta_segment =
     \<lparr> seg_title = ''Action Plan & CTA'',
       durationHint = ''5:30 - 7:00'',
       talkingPoints =
         [''Summarize the playbook viewers can replicate.'',
          ''Share one bonus tip or contrarian insight.'',
          ''Invite engagement with a specific question or challenge.''],
       brollIdeas =
         [''Clean over-the-shoulder shot of action steps checklist'',
          ''Call-to-action animation'',
          ''Satisfied audience reaction visuals''] \<rparr>"

definition buildOutline :: "string \<Rightarrow> string list \<Rightarrow> OutlineSegment list" where
  "buildOutline topic themes =
     hook_segment topic #
     map (\<lambda>(index, theme). breakdown_segment index theme) (List.enumerate 0 (take 3 themes)) @
     [cta_segment]"

section \<open>Request handler\<close>

record AnalyzeRequest =
  topic :: "string option"
  req_description :: "string option"
  audience :: "string option"
  style :: "string option"
  duration :: "string option"
  language :: "string option"

record Metadata =
  requestedAudience :: "string option"
  tone :: "string option"
  meta_durationHint :: "string option"
  meta_language :: "string option"

text \<open>
  The response without its prose parts (summary, hook ideas, narrative angle, action
  items, SEO block and script), which are string templates over the fields kept here.
\<close>

record AnalyzeResponse =
  query :: string
  keyThemes :: "string list"
  outline :: "OutlineSegment list"
  inspiration :: "VideoInsight list"
  metadata :: Metadata

datatype response =
  ErrorJson nat string  \<comment> \<open>\<open>NextResponse.json({ error }, { status })\<close>: status, message\<close>
  | Json AnalyzeResponse

definition provider_queries :: "string \<Rightarrow> string list" where
  \<comment> \<open>the queries of the three \<open>fetchVideoSet\<close> calls, in the order they are issued\<close>
  "provider_queries topic' = [topic', topic' @ '' trending'', ''best '' @ topic']"

definition POST ::
  "(string \<Rightarrow> VideoSearchResult list option) \<Rightarrow> AnalyzeRequest option \<Rightarrow> response \<times> string list" where
  \<comment> \<open>The provider maps a query to the videos of its result, or to \<open>None\<close> when the
      search rejects; the request is \<open>None\<close> when its body does not parse. The result is
      the response together with the queries sent to the provider.\<close>
  "POST provider request =
     (case request of
        None \<Rightarrow> (ErrorJson 500 ''Failed to analyze topic. Please try again later.'', [])
      | Some body \<Rightarrow>
          (case map_option trim (topic body) of
             None \<Rightarrow> (ErrorJson 400 ''Topic is required'', [])
           | Some topic' \<Rightarrow>
               if topic' = [] then (ErrorJson 400 ''Topic is required'', [])
               else
                 (let queryTokens = tokenize (topic' @ '' '' @ or_else (req_description body) []);
                      fallbackTokens = (if length queryTokens > 0 then queryTokens else tokenize topic')
                  in case map provider (provider_queries topic') of
                       [Some primaryResults, Some trendingResults, Some expertResults] \<Rightarrow>
                         (let combinedRaw =
                                dedupeVideos (primaryResults @ trendingResults @ expertResults)
                          in if length combinedRaw = 0
                             then (ErrorJson 404 ''No videos found for the provided topic.'',
                                   provider_queries topic')
                             else
                               (let insights' = insights combinedRaw fallbackTokens;
                                    themeKeywords =
                                      aggregateKeywords
                                        (map (\<lambda>video. insight_title video @ '' '' @ insight_description video)
                                           insights');
                                    themes = take 5 themeKeywords
                                in (Json \<lparr> query = topic',
                                           keyThemes = themes,
                                           outline = buildOutline topic' themes,
                                           inspiration = insights',
                                           metadata =
                                             \<lparr> requestedAudience = audience body,
                                               tone = style body,
                                               meta_durationHint = duration body,
                                               meta_language = language body \<rparr> \<rparr>,
                                    provider_queries topic')))
                     | _ \<Rightarrow>
                         (ErrorJson 500 ''Failed to analyze topic. Please try again later.'',
                          provider_queries topic'))))"

section \<open>Specification vocabulary for scoring, parsing and the handler\<close>

definition spec_relevance :: "VideoSearchResult \<Rightarrow> string list \<Rightarrow> real" where
  \<comment> \<open>the relevance as the specification words it: the fraction of the keywords that occur,
      ignoring case, in the title, a space and the description; 0.3 without keywords\<close>
  "spec_relevance video keywords =
     (if keywords = [] then 3 / 10
      else real (length (filter (\<lambda>keyword.
                   sublist (toLowerCase keyword)
                     (toLowerCase (title video @ '' '' @ or_else (description video) [])))
                 keywords))
           / real (length keywords))"

definition verbatim_relevance :: "VideoSearchResult \<Rightarrow> string list \<Rightarrow> real" where
  \<comment> \<open>the fraction of the keywords that occur as they are in the lower-cased text\<close>
  "verbatim_relevance video keywords =
     (if keywords = [] then 3 / 10
      else real (length (filter (\<lambda>keyword.
                   sublist keyword (toLowerCase (title video @ '' '' @ or_else (description video) [])))
                 keywords))
           / real (length keywords))"

definition age_phrase :: "string \<Rightarrow> string \<Rightarrow> string \<Rightarrow> bool" where
  \<comment> \<open>the text \<open>s\<close> starts with the digits \<open>ds\<close>, white space and the unit \<open>u\<close>: what
      the expression \<open>(\d+)\s+(second|minute|hour|day|week|month|year)\<close> matches, with its
      two groups\<close>
  "age_phrase ds u s =
     (\<exists>ws rest. s = ds @ ws @ u @ rest \<and> ds \<noteq> [] \<and> (\<forall>c\<in>set ds. is_digit c) \<and>
        ws \<noteq> [] \<and> (\<forall>c\<in>set ws. is_space c) \<and> u \<in> set TIME_UNITS)"

definition has_id :: "VideoSearchResult \<Rightarrow> bool" where
  \<comment> \<open>a candidate with a usable identifier\<close>
  "has_id video = (videoId video \<noteq> None \<and> videoId video \<noteq> Some [])"

definition id_map_ok :: "(string \<times> VideoSearchResult) list \<Rightarrow> bool" where
  \<comment> \<open>the invariant of the map of \<open>dedupeVideos\<close>: keys are distinct, and each value is
      stored under its own non-empty identifier\<close>
  "id_map_ok m = (distinct (map fst m) \<and> (\<forall>(i, v)\<in>set m. videoId v = Some i \<and> i \<noteq> []))"

definition example_video :: "string option \<Rightarrow> string \<Rightarrow> VideoSearchResult" where
  \<comment> \<open>a candidate for the examples: an identifier, a title, and no optional field\<close>
  "example_video i t =
     \<lparr> videoId = i, url = ''https://youtube.com/watch'', title = t, description = None,
       image = None, thumbnail = None, ago = None, views = None, author = None \<rparr>"

definition request_tokens :: "AnalyzeRequest \<Rightarrow> string \<Rightarrow> string list" where
  \<comment> \<open>the \<open>fallbackTokens\<close> of the handler for a request body and its trimmed topic\<close>
  "request_tokens body topic' =
     (let queryTokens = tokenize (topic' @ '' '' @ or_else (req_description body) [])
      in if length queryTokens > 0 then queryTokens else tokenize topic')"

definition example_request :: "string \<Rightarrow> AnalyzeRequest" where
  \<comment> \<open>a request for the examples: a topic and no optional field\<close>
  "example_request t =
     \<lparr> topic = Some t, req_description = None, audience = None, style = None,
       duration = None, language = None \<rparr>"

section \<open>Properties of the tokenizer\<close>

lemma split_ws_last:
  "dropWhile (\<lambda>c. \<not> is_space c) s = [] \<Longrightarrow> split_ws s = [takeWhile (\<lambda>c. \<not> is_space c) s]"
  by (subst split_ws.simps) (simp only: Let_def simp_thms if_True)

lemma split_ws_more:
  "dropWhile (\<lambda>c. \<not> is_space c) s \<noteq> [] \<Longrightarrow>
   split_ws s = takeWhile (\<lambda>c. \<not> is_space c) s #
     split_ws (dropWhile is_space (dropWhile (\<lambda>c. \<not> is_space c) s))"
  by (subst split_ws.simps) (simp only: Let_def if_False)

lemma split_ws_no_space: "\<forall>c\<in>set s. \<not> is_space c \<Longrightarrow> split_ws s = [s]"
  by (simp add: split_ws_last)

lemma strip_char_class: "is_lower (strip_char c) \<or> is_digit (strip_char c) \<or> is_space (strip_char c)"
  by (simp add: strip_char_def is_space_def)

lemma split_ws_pieces: "w \<in> set (split_ws s) \<Longrightarrow> c \<in> set w \<Longrightarrow> c \<in> set s \<and> \<not> is_space c"
proof (induction s arbitrary: w rule: split_ws.induct)
  case (1 s)
  let ?rest = "dropWhile (\<lambda>c. \<not> is_space c) s"
  have tw: "c \<in> set (takeWhile (\<lambda>c. \<not> is_space c) s) \<Longrightarrow> c \<in> set s \<and> \<not> is_space c"
    by (auto dest: set_takeWhileD)
  show ?case
  proof (cases "?rest = []")
    case True
    from "1.prems" tw show ?thesis unfolding split_ws_last[OF True] by simp
  next
    case False
    from "1.prems"(1)
    consider "w = takeWhile (\<lambda>c. \<not> is_space c) s" | "w \<in> set (split_ws (dropWhile is_space ?rest))"
      unfolding split_ws_more[OF False] by auto
    then show ?thesis
    proof cases
      case 1
      with "1.prems" tw show ?thesis by simp
    next
      case 2
      from "1.IH"[OF refl refl False 2 "1.prems"(2)]
      have "c \<in> set (dropWhile is_space ?rest)" and "\<not> is_space c" by simp_all
      then show ?thesis by (auto dest!: set_dropWhileD)
    qed
  qed
qed

lemma split_ws_leading:
  "filter (\<lambda>w. w \<noteq> []) (split_ws (dropWhile is_space y)) = filter (\<lambda>w. w \<noteq> []) (split_ws y)"
proof (cases y)
  case Nil
  then show ?thesis by simp
next
  case (Cons c cs)
  show ?thesis
  proof (cases "is_space c")
    case True
    with Cons have "dropWhile (\<lambda>c. \<not> is_space c) y = y" and "y \<noteq> []"
      and "takeWhile (\<lambda>c. \<not> is_space c) y = []" by simp_all
    then have "split_ws y = [] # split_ws (dropWhile is_space y)"
      using split_ws_more[of y] by simp
    then show ?thesis by simp
  next
    case False
    with Cons show ?thesis by simp
  qed
qed

lemma split_ws_snoc_sep:
  assumes sp: "is_space sp"
  shows "split_ws (s @ sp # y) = takeWhile (\<lambda>c. \<not> is_space c) s #
     split_ws (dropWhile is_space (dropWhile (\<lambda>c. \<not> is_space c) s @ sp # y))"
proof -
  let ?ns = "\<lambda>c. \<not> is_space c"
  have tw: "takeWhile ?ns (s @ sp # y) = takeWhile ?ns s"
  proof (cases "\<forall>c\<in>set s. \<not> is_space c")
    case True
    then have e: "takeWhile ?ns s = s" by (simp only: takeWhile_eq_all_conv)
    have "takeWhile ?ns (s @ sp # y) = s @ takeWhile ?ns (sp # y)"
      using True by (intro takeWhile_append2) simp
    also have "\<dots> = s" using sp by simp
    finally show ?thesis unfolding e .
  next
    case False
    then show ?thesis by (auto simp: takeWhile_append)
  qed
  have dw: "dropWhile ?ns (s @ sp # y) = dropWhile ?ns s @ sp # y"
    using sp by (simp add: dropWhile_append)
  have "dropWhile ?ns (s @ sp # y) \<noteq> []" unfolding dw by simp
  from split_ws_more[OF this] show ?thesis unfolding tw dw .
qed

lemma split_ws_append:
  "is_space sp \<Longrightarrow>
   filter (\<lambda>w. w \<noteq> []) (split_ws (x @ sp # y)) =
   filter (\<lambda>w. w \<noteq> []) (split_ws x) @ filter (\<lambda>w. w \<noteq> []) (split_ws y)"
proof (induction x rule: split_ws.induct)
  case (1 s)
  let ?ns = "\<lambda>c. \<not> is_space c"
  let ?ne = "filter (\<lambda>w. w \<noteq> [])"
  define piece where "piece = takeWhile ?ns s"
  define rest where "rest = dropWhile ?ns s"
  have sp: "is_space sp" by fact
  have r: "split_ws (s @ sp # y) = piece # split_ws (dropWhile is_space (rest @ sp # y))"
    unfolding piece_def rest_def by (rule split_ws_snoc_sep[OF sp])
  show ?case
  proof (cases "rest = []")
    case True
    then have "dropWhile ?ns s = []" by (simp add: rest_def)
    then have l: "split_ws s = [piece]" unfolding piece_def by (rule split_ws_last)
    have "dropWhile is_space (rest @ sp # y) = dropWhile is_space y" unfolding True using sp by simp
    then show ?thesis unfolding r l using split_ws_leading[of y] by simp
  next
    case False
    then have ne: "dropWhile ?ns s \<noteq> []" by (simp add: rest_def)
    then have l: "split_ws s = piece # split_ws (dropWhile is_space rest)"
      unfolding piece_def rest_def by (rule split_ws_more)
    have "?ne (split_ws (dropWhile is_space (rest @ sp # y))) =
          ?ne (split_ws (dropWhile is_space rest)) @ ?ne (split_ws y)"
    proof (cases "\<forall>c\<in>set rest. is_space c")
      case True
      then have e: "dropWhile is_space rest = []" by simp
      from True sp have d: "dropWhile is_space (rest @ sp # y) = dropWhile is_space y"
        by (simp add: dropWhile_append)
      show ?thesis unfolding e d using split_ws_leading[of y] by (simp add: split_ws_no_space)
    next
      case False
      then have d: "dropWhile is_space (rest @ sp # y) = dropWhile is_space rest @ sp # y"
        by (auto simp: dropWhile_append)
      show ?thesis unfolding d unfolding rest_def using "1.IH"[OF refl refl ne sp] .
    qed
    then show ?thesis unfolding l r by simp
  qed
qed

lemma keep_word_filter: "filter keep_word ws = filter keep_word (filter (\<lambda>w. w \<noteq> []) ws)"
  by (induction ws) (auto simp: keep_word_def)

lemma lower_char_space: "is_space c \<Longrightarrow> lower_char c = c"
  by (auto simp: is_space_def lower_char_def Let_def)

lemma lower_char_fix: "is_lower c \<or> is_digit c \<Longrightarrow> lower_char c = c"
  by (auto simp: is_lower_def is_digit_def lower_char_def Let_def)

lemma tokenize_append:
  assumes "is_space sp"
  shows "tokenize (a @ sp # b) = tokenize a @ tokenize b"
proof -
  have "strip_char (lower_char sp) = sp" using assms by (simp add: lower_char_space strip_char_def)
  then have "map strip_char (toLowerCase (a @ sp # b)) =
        map strip_char (toLowerCase a) @ sp # map strip_char (toLowerCase b)"
    by (simp add: toLowerCase_def)
  then show ?thesis
    unfolding tokenize_def
    by (subst (1 2 3) keep_word_filter) (simp add: split_ws_append[OF assms])
qed

lemma tokenize_word:
  assumes "\<forall>c\<in>set w. is_lower c \<or> is_digit c" "keep_word w"
  shows "tokenize w = [w]"
proof -
  have "map strip_char (toLowerCase w) = w"
    using assms(1) by (auto simp: toLowerCase_def strip_char_def lower_char_fix intro!: map_idI)
  moreover have "\<forall>c\<in>set w. \<not> is_space c"
    using assms(1) by (auto simp: is_space_def is_lower_def is_digit_def Let_def)
  ultimately show ?thesis using assms(2) by (simp add: tokenize_def split_ws_no_space)
qed

lemma tokenize_chars:
  assumes "t \<in> set (tokenize T)"
  shows "(\<forall>c\<in>set t. is_lower c \<or> is_digit c) \<and> 3 \<le> length t \<and> t \<notin> set STOP_WORDS"
proof -
  from assms have t: "t \<in> set (split_ws (map strip_char (toLowerCase T)))" and k: "keep_word t"
    by (simp_all add: tokenize_def)
  have "is_lower c \<or> is_digit c" if "c \<in> set t" for c
  proof -
    from split_ws_pieces[OF t that] obtain d where "c = strip_char d" and "\<not> is_space c" by auto
    then show ?thesis using strip_char_class[of d] by auto
  qed
  with k show ?thesis by (auto simp: keep_word_def)
qed

lemma tokenize_empty: "tokenize [] = []"
  by (simp add: tokenize_def toLowerCase_def split_ws_no_space keep_word_def)

lemma tokenize_join:
  "\<forall>w\<in>set ws. (\<forall>c\<in>set w. is_lower c \<or> is_digit c) \<and> keep_word w \<Longrightarrow>
   tokenize (join '' '' ws) = ws"
proof (induction ws rule: induct_list012)
  case 1
  show ?case by (simp add: tokenize_empty)
next
  case (2 w)
  then show ?case by (simp add: tokenize_word)
next
  case (3 w v ws)
  have sp: "is_space CHR '' ''" by (simp add: is_space_def)
  have "tokenize (join '' '' (w # v # ws)) = tokenize w @ tokenize (join '' '' (v # ws))"
    using tokenize_append[OF sp, of w "join '' '' (v # ws)"] by simp
  with 3 show ?case by (simp add: tokenize_word)
qed

text \<open>
  C3. Every token returned by \<open>tokenize\<close> consists of lowercase Latin letters and digits
  only, has at least 3 characters and is not a stop word. Tokens come out in the order of
  the text with duplicates retained: the tokens of two texts separated by a white-space
  character are the tokens of the first followed by the tokens of the second, and a text
  made of admissible words joined by spaces is tokenized into exactly those words. The
  empty text has no tokens.
\<close>

theorem tokenize_spec:
  "(\<forall>t\<in>set (tokenize T).
      (\<forall>c\<in>set t. is_lower c \<or> is_digit c) \<and> 3 \<le> length t \<and> t \<notin> set STOP_WORDS) \<and>
   tokenize [] = [] \<and>
   (is_space sp \<longrightarrow> tokenize (a @ sp # b) = tokenize a @ tokenize b) \<and>
   ((\<forall>w\<in>set ws. (\<forall>c\<in>set w. is_lower c \<or> is_digit c) \<and> keep_word w) \<longrightarrow>
      tokenize (join '' '' ws) = ws)"
  using tokenize_chars[of _ T] tokenize_empty tokenize_append[of sp a b] tokenize_join[of ws]
  by blast

theorem tokenize_spec_witness:
  "tokenize ''Cats, the cats & 2 DOGS!'' = [''cats'', ''cats'', ''dogs''] \<and>
   list_all (\<lambda>t. list_all (\<lambda>c. is_lower c \<or> is_digit c) t \<and> 3 \<le> length t \<and> t \<notin> set STOP_WORDS)
     [''cats'', ''cats'', ''dogs''] \<and>
   is_space CHR '' '' \<and>
   tokenize (''big cats'' @ CHR '' '' # ''big dogs'') = tokenize ''big cats'' @ tokenize ''big dogs'' \<and>
   list_all (\<lambda>w. list_all (\<lambda>c. is_lower c \<or> is_digit c) w \<and> keep_word w)
     [''cats'', ''dogs'', ''cats''] \<and>
   tokenize (join '' '' [''cats'', ''dogs'', ''cats'']) = [''cats'', ''dogs'', ''cats'']"
proof -
  have e: "tokenize ''Cats, the cats & 2 DOGS!'' = [''cats'', ''cats'', ''dogs'']"
    by code_simp
  have sp: "is_space CHR '' ''" by (simp add: is_space_def)
  have k: "\<forall>w\<in>set [''cats'', ''dogs'', ''cats'']. (\<forall>c\<in>set w. is_lower c \<or> is_digit c) \<and> keep_word w"
    by code_simp
  from tokenize_spec[of "''Cats, the cats & 2 DOGS!''" "CHR '' ''" "''big cats''" "''big dogs''"
      "[''cats'', ''dogs'', ''cats'']"] e sp k
  show ?thesis unfolding list_all_iff by simp
qed

section \<open>Properties of the keyword ranking\<close>

lemma set_insert_by: "set (insert_by cmp x ys) = insert x (set ys)"
  by (induction ys) auto

lemma length_insert_by: "length (insert_by cmp x ys) = Suc (length ys)"
  by (induction ys) auto

lemma set_sort_by: "set (sort_by cmp xs) = set xs"
  by (induction xs) (simp_all add: sort_by_def set_insert_by)

lemma length_sort_by: "length (sort_by cmp xs) = length xs"
  by (induction xs) (simp_all add: sort_by_def length_insert_by)

lemma distinct_insert_by: "distinct (map f (insert_by cmp x ys)) = (f x \<notin> f ` set ys \<and> distinct (map f ys))"
  by (induction ys) (auto simp: set_insert_by)

lemma distinct_sort_by: "distinct (map f (sort_by cmp xs)) = distinct (map f xs)"
  by (induction xs) (simp_all add: sort_by_def distinct_insert_by set_sort_by[unfolded sort_by_def])

lemma sorted_wrt_insert_by:
  fixes k :: "'a \<Rightarrow> 'k::linorder"
  assumes key: "\<And>a b. (cmp a b \<le> 0) = (k a \<le> k b)"
    and srt: "sorted_wrt (\<lambda>a b. k a < k b \<or> (k a = k b \<and> Q a b)) ys"
    and before: "\<forall>y\<in>set ys. Q x y"
  shows "sorted_wrt (\<lambda>a b. k a < k b \<or> (k a = k b \<and> Q a b)) (insert_by cmp x ys)"
  using srt before
proof (induction ys)
  case Nil
  then show ?case by simp
next
  case (Cons y ys)
  show ?case
  proof (cases "cmp x y \<le> 0")
    case True
    then have xy: "k x \<le> k y" by (simp add: key)
    have "k x < k z \<or> (k x = k z \<and> Q x z)" if "z \<in> set (y # ys)" for z
    proof -
      have "k y \<le> k z" using Cons.prems(1) that by auto
      with xy have "k x \<le> k z" by simp
      moreover have "Q x z" using Cons.prems(2) that by auto
      ultimately show ?thesis by auto
    qed
    with True Cons.prems(1) show ?thesis by simp
  next
    case False
    then have "k y < k x" by (simp add: key not_le)
    moreover have "sorted_wrt (\<lambda>a b. k a < k b \<or> (k a = k b \<and> Q a b)) (insert_by cmp x ys)"
      using Cons by simp
    ultimately show ?thesis using False Cons.prems(1) by (auto simp: set_insert_by)
  qed
qed

lemma sorted_wrt_sort_by:
  fixes k :: "'a \<Rightarrow> 'k::linorder"
  assumes key: "\<And>a b. (cmp a b \<le> 0) = (k a \<le> k b)"
    and srt: "sorted_wrt Q xs"
  shows "sorted_wrt (\<lambda>a b. k a < k b \<or> (k a = k b \<and> Q a b)) (sort_by cmp xs)"
  using srt
proof (induction xs)
  case Nil
  show ?case by (simp add: sort_by_def)
next
  case (Cons x xs)
  then have "sorted_wrt (\<lambda>a b. k a < k b \<or> (k a = k b \<and> Q a b)) (sort_by cmp xs)"
    and "\<forall>y\<in>set (sort_by cmp xs). Q x y"
    by (simp_all add: set_sort_by)
  then have "sorted_wrt (\<lambda>a b. k a < k b \<or> (k a = k b \<and> Q a b)) (insert_by cmp x (sort_by cmp xs))"
    by (rule sorted_wrt_insert_by[OF key])
  then show ?case by (simp add: sort_by_def)
qed

subsection \<open>The frequency map\<close>

lemma word_freq_concat: "word_freq texts = fold count_word (concat (map tokenize texts)) []"
proof -
  have "fold (\<lambda>text freq. fold count_word (tokenize text) freq) texts m =
        fold count_word (concat (map tokenize texts)) m" for m
    by (induction texts arbitrary: m) simp_all
  then show ?thesis by (simp add: word_freq_def)
qed

lemma map_of_count_word:
  "map_of (count_word w m) = (map_of m)(w \<mapsto> (case map_of m w of None \<Rightarrow> 0 | Some c \<Rightarrow> c) + 1)"
  by (simp add: count_word_def update_conv')

lemma keys_count_word:
  "map fst (count_word w m) = (if w \<in> set (map fst m) then map fst m else map fst m @ [w])"
  by (simp add: count_word_def update_keys)

lemma map_of_fold_count_word:
  "map_of (fold count_word ws []) w = (if w \<in> set ws then Some (count_list ws w) else None)"
proof (induction ws rule: rev_induct)
  case Nil
  show ?case by simp
next
  case (snoc x xs)
  then show ?case by (auto simp: map_of_count_word)
qed

lemma keys_fold_count_word:
  "set (map fst (fold count_word ws [])) = set ws \<and> distinct (map fst (fold count_word ws [])) \<and>
   sorted_wrt (\<lambda>a b. first_index ws a < first_index ws b) (map fst (fold count_word ws []))"
proof (induction ws rule: rev_induct)
  case Nil
  show ?case by simp
next
  case (snoc x xs)
  let ?ks = "map fst (fold count_word xs [])"
  from snoc have s: "set ?ks = set xs" and d: "distinct ?ks"
    and o: "sorted_wrt (\<lambda>a b. first_index xs a < first_index xs b) ?ks" by simp_all
  have fi: "first_index (xs @ [x]) a = first_index xs a" if "a \<in> set xs" for a
    using that by (simp add: first_index_def)
  have fx: "first_index (xs @ [x]) x = length xs" if "x \<notin> set xs"
  proof -
    have "takeWhile (\<lambda>y. y \<noteq> x) (xs @ [x]) = xs @ takeWhile (\<lambda>y. y \<noteq> x) [x]"
      using that by (intro takeWhile_append2) auto
    then show ?thesis by (simp add: first_index_def)
  qed
  have lt: "first_index xs a < length xs" if "a \<in> set xs" for a
    using that unfolding first_index_def by (induction xs) auto
  have o': "sorted_wrt (\<lambda>a b. first_index (xs @ [x]) a < first_index (xs @ [x]) b) ?ks"
    using o s by (auto intro: sorted_wrt_mono_rel[rotated] simp: fi)
  show ?case
  proof (cases "x \<in> set xs")
    case True
    with s d o' show ?thesis by (auto simp: keys_count_word)
  next
    case False
    with s d o' show ?thesis
      by (auto simp: keys_count_word sorted_wrt_append fi fx lt)
  qed
qed

lemma word_freq_entry:
  assumes "e \<in> set (word_freq texts)"
  shows "snd e = frequency texts (fst e)"
proof -
  let ?m = "fold count_word (all_tokens texts) []"
  have m: "word_freq texts = ?m" by (simp add: word_freq_concat all_tokens_def)
  have "distinct (map fst ?m)" using keys_fold_count_word by blast
  with assms m have "map_of ?m (fst e) = Some (snd e)" by simp
  then show ?thesis
    by (simp add: map_of_fold_count_word frequency_def split: if_splits)
qed

lemma ranked_words_props:
  "set (ranked_words texts) = set (all_tokens texts) \<and> distinct (ranked_words texts) \<and>
   sorted_wrt (ranks_before texts) (ranked_words texts)"
proof -
  let ?toks = "all_tokens texts"
  let ?m = "word_freq texts"
  let ?cmp = "\<lambda>a b :: string \<times> nat. int (snd b) - int (snd a)"
  let ?Q = "\<lambda>a b :: string \<times> nat. first_index ?toks (fst a) < first_index ?toks (fst b)"
  let ?k = "\<lambda>e :: string \<times> nat. - int (snd e)"
  have m: "?m = fold count_word ?toks []" by (simp add: word_freq_concat all_tokens_def)
  have keys: "set (map fst ?m) = set ?toks" "distinct (map fst ?m)"
    "sorted_wrt (\<lambda>a b. first_index ?toks a < first_index ?toks b) (map fst ?m)"
    unfolding m using keys_fold_count_word[of ?toks] by blast+
  have s: "set (ranked_words texts) = set ?toks"
    using keys(1) by (simp add: ranked_words_def set_sort_by)
  have d: "distinct (ranked_words texts)"
    using keys(2) by (simp add: ranked_words_def distinct_sort_by)
  have "sorted_wrt ?Q ?m" using keys(3) by (simp add: sorted_wrt_map)
  then have "sorted_wrt (\<lambda>a b. ?k a < ?k b \<or> (?k a = ?k b \<and> ?Q a b)) (sort_by ?cmp ?m)"
    by (intro sorted_wrt_sort_by) auto
  then have "sorted_wrt (\<lambda>a b. ranks_before texts (fst a) (fst b)) (sort_by ?cmp ?m)"
  proof (rule sorted_wrt_mono_rel[rotated])
    fix a b
    assume "a \<in> set (sort_by ?cmp ?m)" "b \<in> set (sort_by ?cmp ?m)"
    then have "snd a = frequency texts (fst a)" "snd b = frequency texts (fst b)"
      by (simp_all add: set_sort_by word_freq_entry)
    moreover assume "?k a < ?k b \<or> (?k a = ?k b \<and> ?Q a b)"
    ultimately show "ranks_before texts (fst a) (fst b)"
      by (auto simp: ranks_before_def)
  qed
  then have "sorted_wrt (ranks_before texts) (ranked_words texts)"
    by (simp add: ranked_words_def sorted_wrt_map)
  with s d show ?thesis by simp
qed

lemma aggregateKeywords_take: "aggregateKeywords texts = take 10 (ranked_words texts)"
  by (simp add: aggregateKeywords_def ranked_words_def take_map)

lemma ranked_words_dominant:
  assumes w: "w \<in> set (all_tokens texts)"
    and dom: "\<forall>v\<in>set (all_tokens texts). v \<noteq> w \<longrightarrow> frequency texts v < frequency texts w"
  shows "ranked_words texts \<noteq> [] \<and> hd (ranked_words texts) = w"
proof -
  from ranked_words_props[of texts]
  have s: "set (ranked_words texts) = set (all_tokens texts)"
    and o: "sorted_wrt (ranks_before texts) (ranked_words texts)" by simp_all
  from w s obtain h rest where r: "ranked_words texts = h # rest"
    by (cases "ranked_words texts") auto
  have "h = w"
  proof (rule ccontr)
    assume n: "h \<noteq> w"
    with w s r have "w \<in> set rest" by auto
    with o r have "ranks_before texts h w" by simp
    moreover have "h \<in> set (all_tokens texts)" using s r by auto
    with dom n have "frequency texts h < frequency texts w" by simp
    ultimately show False by (simp add: ranks_before_def)
  qed
  with r show ?thesis by simp
qed

text \<open>
  C4. \<open>aggregateKeywords\<close> returns the first 10 of the distinct tokens of the texts,
  ordered by descending frequency with equally frequent words in the order in which they
  were first met; so it returns at most 10 words, and a word that is strictly more frequent
  than every other word comes first.
\<close>

theorem aggregateKeywords_spec:
  "aggregateKeywords texts = take 10 (ranked_words texts) \<and>
   set (ranked_words texts) = set (all_tokens texts) \<and>
   distinct (ranked_words texts) \<and>
   sorted_wrt (ranks_before texts) (ranked_words texts) \<and>
   length (aggregateKeywords texts) \<le> 10 \<and>
   distinct (aggregateKeywords texts) \<and>
   sorted_wrt (ranks_before texts) (aggregateKeywords texts) \<and>
   (w \<in> set (all_tokens texts) \<and>
    (\<forall>v\<in>set (all_tokens texts). v \<noteq> w \<longrightarrow> frequency texts v < frequency texts w) \<longrightarrow>
    aggregateKeywords texts \<noteq> [] \<and> hd (aggregateKeywords texts) = w)"
proof -
  note p = ranked_words_props[of texts]
  have t: "aggregateKeywords texts = take 10 (ranked_words texts)" by (rule aggregateKeywords_take)
  have "aggregateKeywords texts \<noteq> [] \<and> hd (aggregateKeywords texts) = w"
    if "w \<in> set (all_tokens texts)"
      "\<forall>v\<in>set (all_tokens texts). v \<noteq> w \<longrightarrow> frequency texts v < frequency texts w"
    using ranked_words_dominant[OF that] unfolding t by (cases "ranked_words texts") simp_all
  with p show ?thesis unfolding t by (auto simp: distinct_take)
qed

theorem aggregateKeywords_spec_witness:
  "aggregateKeywords [''cats dogs cats'', ''birds dogs cats''] = [''cats'', ''dogs'', ''birds''] \<and>
   ''cats'' \<in> set (all_tokens [''cats dogs cats'', ''birds dogs cats'']) \<and>
   list_all (\<lambda>v. v \<noteq> ''cats'' \<longrightarrow>
       frequency [''cats dogs cats'', ''birds dogs cats''] v <
       frequency [''cats dogs cats'', ''birds dogs cats''] ''cats'')
     (all_tokens [''cats dogs cats'', ''birds dogs cats'']) \<and>
   hd (aggregateKeywords [''cats dogs cats'', ''birds dogs cats'']) = ''cats''"
proof -
  have a: "aggregateKeywords [''cats dogs cats'', ''birds dogs cats''] = [''cats'', ''dogs'', ''birds'']"
    by code_simp
  have w: "''cats'' \<in> set (all_tokens [''cats dogs cats'', ''birds dogs cats''])"
    by code_simp
  have d: "\<forall>v\<in>set (all_tokens [''cats dogs cats'', ''birds dogs cats'']). v \<noteq> ''cats'' \<longrightarrow>
       frequency [''cats dogs cats'', ''birds dogs cats''] v <
       frequency [''cats dogs cats'', ''birds dogs cats''] ''cats''"
    by code_simp
  from aggregateKeywords_spec[of "[''cats dogs cats'', ''birds dogs cats'']" "''cats''"] a w d
  show ?thesis unfolding list_all_iff by blast
qed

section \<open>Properties of deduplication\<close>

lemma update_absent: "map_of m k = None \<Longrightarrow> AList.update k v m = m @ [(k, v)]"
  by (induction m) (auto split: if_splits)

lemma map_has_set_cases:
  "map_has_set video m =
     (if has_id video \<and> map_of m (the (videoId video)) = None
      then m @ [(the (videoId video), video)] else m)"
  by (auto simp: map_has_set_def has_id_def update_absent split: option.splits)

lemma id_map_ok_step: "id_map_ok m \<Longrightarrow> id_map_ok (map_has_set video m)"
  by (auto simp: map_has_set_cases id_map_ok_def has_id_def map_of_eq_None_iff)

lemma id_map_ok_fold: "id_map_ok m \<Longrightarrow> id_map_ok (fold map_has_set videos m)"
  by (induction videos arbitrary: m) (simp_all add: id_map_ok_step)

lemma map_of_map_has_set:
  "i \<noteq> [] \<Longrightarrow> map_of (map_has_set video m) i =
     (case map_of m i of Some u \<Rightarrow> Some u
      | None \<Rightarrow> if videoId video = Some i then Some video else None)"
  by (auto simp: map_has_set_cases has_id_def map_add_def split: option.splits)

lemma map_of_fold_map_has_set:
  "i \<noteq> [] \<Longrightarrow> map_of (fold map_has_set videos m) i =
     (case map_of m i of Some u \<Rightarrow> Some u
      | None \<Rightarrow> find (\<lambda>u. videoId u = Some i) videos)"
  by (induction videos arbitrary: m) (auto simp: map_of_map_has_set split: option.splits)

lemma dedupe_ids:
  assumes "id_map_ok m"
  shows "map videoId (map snd m) = map (\<lambda>e. Some (fst e)) m"
  using assms by (induction m) (auto simp: id_map_ok_def)

lemma dedupeVideos_distinct: "distinct (map videoId (dedupeVideos videos))"
proof -
  let ?m = "fold map_has_set videos []"
  have ok: "id_map_ok ?m" by (rule id_map_ok_fold) (simp add: id_map_ok_def)
  then have "distinct (map fst ?m)" by (simp add: id_map_ok_def)
  then have "distinct (map (\<lambda>e. Some (fst e)) ?m)"
    by (simp add: distinct_map inj_on_def)
  then show ?thesis unfolding dedupeVideos_def dedupe_ids[OF ok] .
qed

lemma dedupeVideos_first:
  assumes "v \<in> set (dedupeVideos videos)"
  shows "\<exists>i. i \<noteq> [] \<and> videoId v = Some i \<and> find (\<lambda>u. videoId u = Some i) videos = Some v"
proof -
  let ?m = "fold map_has_set videos []"
  have ok: "id_map_ok ?m" by (rule id_map_ok_fold) (simp add: id_map_ok_def)
  from assms obtain i where e: "(i, v) \<in> set ?m" by (auto simp: dedupeVideos_def)
  with ok have i: "videoId v = Some i" "i \<noteq> []" by (auto simp: id_map_ok_def)
  from ok e have "map_of ?m i = Some v" by (simp add: id_map_ok_def)
  with i(2) have "find (\<lambda>u. videoId u = Some i) videos = Some v"
    by (simp add: map_of_fold_map_has_set)
  with i show ?thesis by blast
qed

lemma dedupeVideos_complete:
  assumes "u \<in> set videos" "videoId u = Some i" "i \<noteq> []"
  shows "\<exists>v\<in>set (dedupeVideos videos). videoId v = Some i"
proof -
  let ?m = "fold map_has_set videos []"
  have ok: "id_map_ok ?m" by (rule id_map_ok_fold) (simp add: id_map_ok_def)
  from assms(1,2) have "find (\<lambda>u. videoId u = Some i) videos \<noteq> None"
    by (auto simp: find_None_iff)
  with assms(3) obtain v where "map_of ?m i = Some v"
    by (auto simp: map_of_fold_map_has_set)
  then have e: "(i, v) \<in> set ?m" by (rule map_of_SomeD)
  with ok have "videoId v = Some i" by (auto simp: id_map_ok_def)
  moreover from e have "v \<in> set (dedupeVideos videos)" by (force simp: dedupeVideos_def)
  ultimately show ?thesis by blast
qed

lemma distinct_count_list: "distinct xs \<Longrightarrow> x \<in> set xs \<Longrightarrow> count_list xs x = 1"
  by (induction xs) (auto simp: count_list_0_iff)

lemma dedupeVideos_once:
  assumes "u \<in> set videos" "videoId u = Some i" "i \<noteq> []"
  shows "count_list (map videoId (dedupeVideos videos)) (Some i) = 1"
proof -
  from dedupeVideos_complete[OF assms]
  have "Some i \<in> set (map videoId (dedupeVideos videos))" by force
  with dedupeVideos_distinct[of videos] show ?thesis by (rule distinct_count_list)
qed

lemma find_append_first:
  "find P (xs @ ys) = (case find P xs of Some x \<Rightarrow> Some x | None \<Rightarrow> find P ys)"
  by (induction xs) auto

lemma dedupeVideos_has_id: "v \<in> set (dedupeVideos videos) \<Longrightarrow> has_id v"
  using dedupeVideos_first[of v videos] by (auto simp: has_id_def)

lemma dedupeVideos_subset: "set (dedupeVideos videos) \<subseteq> set videos"
proof
  fix v assume "v \<in> set (dedupeVideos videos)"
  from dedupeVideos_first[OF this] obtain i where "find (\<lambda>u. videoId u = Some i) videos = Some v"
    by blast
  then show "v \<in> set videos" by (auto simp: find_Some_iff)
qed

lemma dedupeVideos_none: "\<forall>v\<in>set videos. \<not> has_id v \<Longrightarrow> dedupeVideos videos = []"
  using dedupeVideos_has_id[of _ videos] dedupeVideos_subset[of videos]
  by (cases "dedupeVideos videos") auto

text \<open>
  C5. In the result of \<open>dedupeVideos\<close> no identifier is repeated, every retained record
  is the first record of the input with its identifier, and every non-empty identifier of
  the input occurs exactly once. On the concatenation of the three result sets, a retained
  record whose identifier occurs among the primary results is the first primary result
  with that identifier.
\<close>

theorem dedupeVideos_spec:
  "distinct (map videoId (dedupeVideos videos)) \<and>
   (\<forall>v\<in>set (dedupeVideos videos).
      \<exists>i. i \<noteq> [] \<and> videoId v = Some i \<and> find (\<lambda>u. videoId u = Some i) videos = Some v) \<and>
   (\<forall>u\<in>set videos. \<forall>i. videoId u = Some i \<and> i \<noteq> [] \<longrightarrow>
      count_list (map videoId (dedupeVideos videos)) (Some i) = 1) \<and>
   (\<forall>v\<in>set (dedupeVideos (primaryResults @ trendingResults @ expertResults)).
      \<forall>u\<in>set primaryResults. videoId u = videoId v \<longrightarrow>
        find (\<lambda>x. videoId x = videoId v) primaryResults = Some v)"
proof -
  have "find (\<lambda>x. videoId x = videoId v) primaryResults = Some v"
    if v: "v \<in> set (dedupeVideos (primaryResults @ trendingResults @ expertResults))"
      and u: "u \<in> set primaryResults" "videoId u = videoId v" for u v
  proof -
    from dedupeVideos_first[OF v] obtain i where i: "videoId v = Some i"
      and f: "find (\<lambda>x. videoId x = Some i) (primaryResults @ trendingResults @ expertResults) = Some v"
      by blast
    from u i have "find (\<lambda>x. videoId x = Some i) primaryResults \<noteq> None"
      by (auto simp: find_None_iff)
    with f i show ?thesis by (auto simp: find_append_first)
  qed
  then show ?thesis
    using dedupeVideos_distinct[of videos] dedupeVideos_first[of _ videos]
      dedupeVideos_once[of _ videos]
    by blast
qed

theorem dedupeVideos_spec_witness:
  "dedupeVideos [example_video (Some ''a'') ''first'', example_video (Some ''b'') ''second'',
                 example_video (Some ''a'') ''third''] =
     [example_video (Some ''a'') ''first'', example_video (Some ''b'') ''second''] \<and>
   example_video (Some ''a'') ''third'' \<in>
     set [example_video (Some ''a'') ''first'', example_video (Some ''b'') ''second'',
          example_video (Some ''a'') ''third''] \<and>
   count_list (map videoId (dedupeVideos
     [example_video (Some ''a'') ''first'', example_video (Some ''b'') ''second'',
      example_video (Some ''a'') ''third''])) (Some ''a'') = 1 \<and>
   find (\<lambda>x. videoId x = Some ''a'') [example_video (Some ''a'') ''first''] =
     Some (example_video (Some ''a'') ''first'')"
proof -
  let ?a1 = "example_video (Some ''a'') ''first''"
  let ?b = "example_video (Some ''b'') ''second''"
  let ?a3 = "example_video (Some ''a'') ''third''"
  have e: "dedupeVideos [?a1, ?b, ?a3] = [?a1, ?b]" by code_simp
  have i: "videoId ?a3 = Some ''a''" "videoId ?a1 = Some ''a''" by (simp_all add: example_video_def)
  from dedupeVideos_spec[of "[?a1, ?b, ?a3]" "[?a1]" "[?b]" "[?a3]"]
  have c: "\<forall>u\<in>set [?a1, ?b, ?a3]. \<forall>i. videoId u = Some i \<and> i \<noteq> [] \<longrightarrow>
      count_list (map videoId (dedupeVideos [?a1, ?b, ?a3])) (Some i) = 1"
    and p: "\<forall>v\<in>set (dedupeVideos ([?a1] @ [?b] @ [?a3])).
      \<forall>u\<in>set [?a1]. videoId u = videoId v \<longrightarrow> find (\<lambda>x. videoId x = videoId v) [?a1] = Some v"
    by blast+
  from c i have "count_list (map videoId (dedupeVideos [?a1, ?b, ?a3])) (Some ''a'') = 1"
    by simp
  moreover from p e i have "find (\<lambda>x. videoId x = Some ''a'') [?a1] = Some ?a1"
    by simp
  ultimately show ?thesis using e by simp
qed


section \<open>Properties of the age parser\<close>

lemma search_age_None: "search_age s = None \<Longrightarrow> suffix t s \<Longrightarrow> match_age_at t = None"
  by (induction s) (auto simp: suffix_Cons split: option.splits)

lemma search_streamed_Some:
  "search_streamed s = Some m \<Longrightarrow> \<exists>t. suffix t s \<and> match_streamed_at t = Some m"
proof (induction s)
  case Nil
  then show ?case by auto
next
  case (Cons c cs)
  show ?case
  proof (cases "match_streamed_at (c # cs)")
    case None
    with Cons obtain t where "suffix t cs" "match_streamed_at t = Some m" by auto
    then show ?thesis by (auto simp: suffix_Cons)
  next
    case (Some m')
    with Cons.prems have "match_streamed_at (c # cs) = Some m" by simp
    then show ?thesis by blast
  qed
qed

lemma match_streamed_at_age:
  "match_streamed_at t = Some m \<Longrightarrow> \<exists>r. suffix r t \<and> match_age_at r = Some m"
proof -
  assume a: "match_streamed_at t = Some m"
  have "suffix (dropWhile is_space (drop 8 t)) t"
    using suffix_dropWhile suffix_drop suffix_order.trans by blast
  with a show ?thesis
    by (auto simp: match_streamed_at_def Let_def split: if_splits)
qed

lemma search_streamed_dead: "search_age s = None \<Longrightarrow> search_streamed s = None"
proof (rule ccontr)
  assume n: "search_age s = None" and "search_streamed s \<noteq> None"
  then obtain m where "search_streamed s = Some m" by auto
  from search_streamed_Some[OF this] obtain t where t: "suffix t s" "match_streamed_at t = Some m"
    by blast
  from match_streamed_at_age[OF t(2)] obtain r where r: "suffix r t" "match_age_at r = Some m"
    by blast
  from r(1) t(1) have "suffix r s" by (rule suffix_order.trans)
  from search_age_None[OF n this] r(2) show False by simp
qed

lemma match_age_at_Some:
  "match_age_at t = Some (ds, u) \<Longrightarrow> ds \<noteq> [] \<and> (\<forall>c\<in>set ds. is_digit c) \<and> u \<in> set TIME_UNITS"
  by (auto simp: match_age_at_def Let_def match_unit_def find_Some_iff
        split: if_splits dest: set_takeWhileD) 

lemma search_age_Some:
  "search_age s = Some (ds, u) \<Longrightarrow> ds \<noteq> [] \<and> (\<forall>c\<in>set ds. is_digit c) \<and> u \<in> set TIME_UNITS"
proof (induction s)
  case Nil
  then show ?case using match_age_at_Some[of "[]" ds u] by simp
next
  case (Cons c cs)
  then show ?case using match_age_at_Some[of "c # cs" ds u]
    by (auto split: option.splits)
qed

lemma parseAgeMinutes_unparsed:
  "search_age (toLowerCase a) = None \<Longrightarrow> parseAgeMinutes (Some a) = 525600"
  by (simp add: parseAgeMinutes_def search_streamed_dead Let_def)

lemma parseAgeMinutes_parsed:
  "a \<noteq> [] \<Longrightarrow> search_age (toLowerCase a) = Some (ds, u) \<Longrightarrow>
   parseAgeMinutes (Some a) = real (parseInt ds) * timeUnitToMinutes u"
  by (simp add: parseAgeMinutes_def)

lemma timeUnitToMinutes_table:
  "map timeUnitToMinutes TIME_UNITS = [1 / 60, 1, 60, 1440, 10080, 43200, 525600]"
  by (simp add: timeUnitToMinutes_def TIME_UNITS_def)

lemma unit_facts:
  "\<forall>u\<in>set TIME_UNITS. toLowerCase u = u \<and> u \<noteq> [] \<and> \<not> is_space (hd u)"
  unfolding TIME_UNITS_def by code_simp

lemma unit_prefix_free:
  "\<forall>u\<in>set TIME_UNITS. \<forall>v\<in>set TIME_UNITS. prefix v u \<longrightarrow> v = u"
  unfolding TIME_UNITS_def by code_simp

lemma find_prefix_free:
  "u \<in> set us \<Longrightarrow> \<forall>v\<in>set us. prefix v (u @ rest) \<longrightarrow> v = u \<Longrightarrow>
   find (\<lambda>v. prefix v (u @ rest)) us = Some u"
  by (induction us) auto

lemma prefix_same_text:
  "prefix v (u @ rest) \<Longrightarrow> prefix v u \<or> prefix u v"
  by (metis prefix_append prefixI)

lemma match_unit_unit:
  assumes "u \<in> set TIME_UNITS"
  shows "match_unit (u @ rest) = Some u \<and> toLowerCase u = u \<and>
     dropWhile is_space (u @ rest) = u @ rest"
proof -
  from assms unit_facts have l: "toLowerCase u = u" and ne: "u \<noteq> []" and sp: "\<not> is_space (hd u)"
    by auto
  from ne sp have d: "dropWhile is_space (u @ rest) = u @ rest" by (cases u) auto
  have "v = u" if "v \<in> set TIME_UNITS" "prefix v (u @ rest)" for v
    using prefix_same_text[OF that(2)] unit_prefix_free assms that(1) by blast
  with assms have "match_unit (u @ rest) = Some u"
    unfolding match_unit_def by (intro find_prefix_free) auto
  with l d show ?thesis by simp
qed

lemma toLowerCase_digits: "\<forall>c\<in>set ds. is_digit c \<Longrightarrow> toLowerCase ds = ds"
  by (auto simp: toLowerCase_def lower_char_def is_digit_def Let_def intro!: map_idI)

lemma match_age_at_plain:
  assumes ds: "ds \<noteq> []" "\<forall>c\<in>set ds. is_digit c" and u: "u \<in> set TIME_UNITS"
  shows "match_age_at (ds @ '' '' @ u @ rest) = Some (ds, u)"
proof -
  have nd: "\<not> is_digit CHR '' ''" and sp: "is_space CHR '' ''"
    by (simp_all add: is_digit_def is_space_def)
  have tw: "takeWhile is_digit (ds @ '' '' @ u @ rest) = ds"
  proof -
    have "takeWhile is_digit (ds @ '' '' @ u @ rest) = ds @ takeWhile is_digit ('' '' @ u @ rest)"
      using ds(2) by (intro takeWhile_append2) simp
    then show ?thesis using nd by simp
  qed
  have dw: "dropWhile is_digit (ds @ '' '' @ u @ rest) = '' '' @ u @ rest"
  proof -
    have "dropWhile is_digit (ds @ '' '' @ u @ rest) = dropWhile is_digit ('' '' @ u @ rest)"
      using ds(2) by (intro dropWhile_append2) simp
    then show ?thesis using nd by simp
  qed
  have dw2: "dropWhile is_space ('' '' @ u @ rest) = u @ rest"
    using sp match_unit_unit[OF u, of rest] by simp
  show ?thesis
    unfolding match_age_at_def tw dw Let_def dw2
    using ds(1) match_unit_unit[OF u, of rest] by simp
qed

lemma parseAgeMinutes_plain:
  assumes ds: "ds \<noteq> []" "\<forall>c\<in>set ds. is_digit c" and u: "u \<in> set TIME_UNITS"
  shows "parseAgeMinutes (Some (ds @ '' '' @ u @ rest)) = real (parseInt ds) * timeUnitToMinutes u"
proof -
  have sp: "lower_char CHR '' '' = CHR '' ''" by (simp add: lower_char_def)
  have l: "toLowerCase (ds @ '' '' @ u @ rest) = ds @ '' '' @ u @ toLowerCase rest"
    using toLowerCase_digits[OF ds(2)] match_unit_unit[OF u, of rest] sp
    by (simp add: toLowerCase_def)
  from ds(1) obtain d ds' where c: "ds = d # ds'" by (cases ds) auto
  have "search_age (ds @ '' '' @ u @ toLowerCase rest) = Some (ds, u)"
    using match_age_at_plain[OF ds u, of "toLowerCase rest"] unfolding c by simp
  with l have "search_age (toLowerCase (ds @ '' '' @ u @ rest)) = Some (ds, u)" by simp
  moreover have "ds @ '' '' @ u @ rest \<noteq> []" using ds(1) by simp
  ultimately show ?thesis by (rule parseAgeMinutes_parsed[rotated])
qed

lemma parseAgeMinutes_streamed: "parseAgeMinutes (Some ''streamed 3 days ago'') = 4320"
  by (simp add: parseAgeMinutes_def toLowerCase_def lower_char_def match_age_at_def
        match_unit_def TIME_UNITS_def is_digit_def is_space_def parseInt_def timeUnitToMinutes_def)

lemma space_not_digit: "is_space c \<Longrightarrow> \<not> is_digit c"
  by (auto simp: is_space_def is_digit_def Let_def)

lemma takeWhile_run:
  assumes "\<forall>c\<in>set xs. P c" "ys = [] \<or> \<not> P (hd ys)"
  shows "takeWhile P (xs @ ys) = xs \<and> dropWhile P (xs @ ys) = ys"
proof -
  have "takeWhile P ys = []" "dropWhile P ys = ys" using assms(2) by (cases ys; simp)+
  moreover have "takeWhile P (xs @ ys) = xs @ takeWhile P ys"
    using assms(1) by (intro takeWhile_append2) simp
  moreover have "dropWhile P (xs @ ys) = dropWhile P ys"
    using assms(1) by (intro dropWhile_append2) simp
  ultimately show ?thesis by simp
qed

lemma match_age_at_phrase:
  assumes "age_phrase ds u s"
  shows "match_age_at s = Some (ds, u)"
proof -
  from assms obtain ws rest where s: "s = ds @ ws @ u @ rest" and ds: "ds \<noteq> []" "\<forall>c\<in>set ds. is_digit c"
    and ws: "ws \<noteq> []" "\<forall>c\<in>set ws. is_space c" and u: "u \<in> set TIME_UNITS"
    by (auto simp: age_phrase_def)
  from ws have "\<not> is_digit (hd (ws @ u @ rest))" by (cases ws) (auto simp: space_not_digit)
  with ds(2) have d: "takeWhile is_digit s = ds" "dropWhile is_digit s = ws @ u @ rest"
    unfolding s using takeWhile_run[of ds is_digit "ws @ u @ rest"] by simp_all
  from u unit_facts have "u \<noteq> []" "\<not> is_space (hd u)" by auto
  then have "u @ rest = [] \<or> \<not> is_space (hd (u @ rest))" by simp
  with ws(2) have w: "dropWhile is_space (ws @ u @ rest) = u @ rest"
    using takeWhile_run[of ws is_space "u @ rest"] by simp
  have l: "length (u @ rest) \<noteq> length (ws @ u @ rest)" using ws(1) by simp
  show ?thesis
    unfolding match_age_at_def d w Let_def
    using ds(1) l match_unit_unit[OF u, of rest] by simp
qed

lemma match_age_at_is_phrase:
  assumes "match_age_at s = Some (ds, u)"
  shows "age_phrase ds u s"
proof -
  define r where "r = dropWhile is_digit s"
  define r' where "r' = dropWhile is_space r"
  from assms have ds: "ds = takeWhile is_digit s" "ds \<noteq> []" and len: "length r' \<noteq> length r"
    and mu: "match_unit r' = Some u"
    by (auto simp: match_age_at_def Let_def r_def r'_def split: if_splits)
  from mu have u: "u \<in> set TIME_UNITS" and "prefix u r'"
    by (auto simp: match_unit_def find_Some_iff)
  then obtain rest where rest: "r' = u @ rest" by (auto simp: prefix_def)
  define ws where "ws = takeWhile is_space r"
  have r: "r = ws @ r'" by (simp add: ws_def r'_def)
  with len have "ws \<noteq> []" by auto
  moreover have "\<forall>c\<in>set ws. is_space c" unfolding ws_def by (auto dest: set_takeWhileD)
  moreover have "\<forall>c\<in>set ds. is_digit c" unfolding ds(1) by (auto dest: set_takeWhileD)
  moreover have "s = ds @ ws @ u @ rest"
    using takeWhile_dropWhile_id[of is_digit s] by (simp add: ds(1) r_def[symmetric] r rest)
  ultimately show ?thesis using ds(2) u unfolding age_phrase_def by blast
qed

lemma search_age_Some_phrase:
  "search_age s = Some (ds, u) \<Longrightarrow> \<exists>pre t. s = pre @ t \<and> age_phrase ds u t"
proof (induction s)
  case Nil
  then have "age_phrase ds u []" by (simp add: match_age_at_is_phrase)
  then show ?case by blast
next
  case (Cons c cs)
  show ?case
  proof (cases "match_age_at (c # cs)")
    case None
    with Cons obtain pre t where "cs = pre @ t" "age_phrase ds u t" by auto
    then have "c # cs = (c # pre) @ t \<and> age_phrase ds u t" by simp
    then show ?thesis by blast
  next
    case (Some m)
    with Cons.prems have "match_age_at (c # cs) = Some (ds, u)" by simp
    then have "c # cs = [] @ (c # cs) \<and> age_phrase ds u (c # cs)"
      by (simp add: match_age_at_is_phrase)
    then show ?thesis by blast
  qed
qed

lemma search_age_None_phrase:
  assumes "search_age s = None"
  shows "\<not> (\<exists>pre ds u t. s = pre @ t \<and> age_phrase ds u t)"
proof
  assume "\<exists>pre ds u t. s = pre @ t \<and> age_phrase ds u t"
  then obtain pre ds u t where s: "s = pre @ t" and p: "age_phrase ds u t" by blast
  from s have "suffix t s" by (simp add: suffix_def)
  from search_age_None[OF assms this] match_age_at_phrase[OF p] show False by simp
qed

lemma search_age_iff:
  "(search_age s = None) = (\<not> (\<exists>pre ds u t. s = pre @ t \<and> age_phrase ds u t))"
proof
  assume "search_age s = None"
  then show "\<not> (\<exists>pre ds u t. s = pre @ t \<and> age_phrase ds u t)" by (rule search_age_None_phrase)
next
  assume n: "\<not> (\<exists>pre ds u t. s = pre @ t \<and> age_phrase ds u t)"
  show "search_age s = None"
  proof (cases "search_age s")
    case None
    then show ?thesis .
  next
    case (Some m)
    then have "search_age s = Some (fst m, snd m)" by simp
    from search_age_Some_phrase[OF this] n show ?thesis by blast
  qed
qed

lemma search_age_leftmost:
  "search_age s = Some (ds, u) \<Longrightarrow>
   \<exists>pre t. s = pre @ t \<and> age_phrase ds u t \<and>
     (\<forall>pre' t' n v. s = pre' @ t' \<and> age_phrase n v t' \<longrightarrow> length pre \<le> length pre')"
proof (induction s)
  case Nil
  then have "match_age_at [] = Some (ds, u)" by simp
  then have a: "age_phrase ds u []" by (rule match_age_at_is_phrase)
  show ?case
  proof (intro exI conjI allI impI)
    show "[] = [] @ []" by simp
    show "age_phrase ds u []" by (rule a)
    show "length ([]::string) \<le> length pre'" for pre' by simp
  qed
next
  case (Cons c cs)
  show ?case
  proof (cases "match_age_at (c # cs)")
    case None
    with Cons.prems have "search_age cs = Some (ds, u)" by simp
    from Cons.IH[OF this] obtain pre t where p: "cs = pre @ t" "age_phrase ds u t"
      and m: "\<And>pre' t' n v. cs = pre' @ t' \<Longrightarrow> age_phrase n v t' \<Longrightarrow> length pre \<le> length pre'"
      by (elim exE conjE) blast
    show ?thesis
    proof (intro exI conjI allI impI)
      show "c # cs = (c # pre) @ t" using p(1) by simp
      show "age_phrase ds u t" by (rule p(2))
      fix pre' t' n v
      assume "c # cs = pre' @ t' \<and> age_phrase n v t'"
      then have s: "c # cs = pre' @ t'" and a: "age_phrase n v t'" by simp_all
      show "length (c # pre) \<le> length pre'"
      proof (cases pre')
        case Nil
        with s have "t' = c # cs" by simp
        with a have "match_age_at (c # cs) = Some (n, v)" by (simp add: match_age_at_phrase)
        with None show ?thesis by simp
      next
        case (Cons x xs)
        with s have "cs = xs @ t'" by simp
        from m[OF this a] Cons show ?thesis by simp
      qed
    qed
  next
    case (Some m)
    with Cons.prems have "match_age_at (c # cs) = Some (ds, u)" by simp
    then have a: "age_phrase ds u (c # cs)" by (rule match_age_at_is_phrase)
    show ?thesis
    proof (intro exI conjI allI impI)
      show "c # cs = [] @ (c # cs)" by simp
      show "age_phrase ds u (c # cs)" by (rule a)
      show "length ([]::string) \<le> length pre'" for pre' by simp
    qed
  qed
qed

lemma search_age_nonempty: "search_age (toLowerCase a) = Some m \<Longrightarrow> a \<noteq> []"
  by (auto simp: toLowerCase_def match_age_at_def)

lemma parseInt_Nil: "parseInt [] = 0"
  by (simp add: parseInt_def)

lemma parseInt_snoc: "parseInt (ds @ [d]) = 10 * parseInt ds + (of_char d - 48)"
  by (simp add: parseInt_def)

lemma digit_char: "k < 10 \<Longrightarrow> is_digit (char_of (48 + k)) \<and> of_char (char_of (48 + k)) - 48 = k"
  for k :: nat
  by (simp add: is_digit_def Let_def)

lemma show_nat_lt: "n < 10 \<Longrightarrow> show_nat n = [char_of (48 + n)]"
  by (subst show_nat.simps) (simp only: if_True)

lemma show_nat_ge: "\<not> n < 10 \<Longrightarrow> show_nat n = show_nat (n div 10) @ [char_of (48 + n mod 10)]"
  by (subst show_nat.simps) (simp only: if_False)

lemma show_nat_digits: "show_nat n \<noteq> [] \<and> (\<forall>c\<in>set (show_nat n). is_digit c)"
proof (induction n rule: show_nat.induct)
  case (1 n)
  show ?case
  proof (cases "n < 10")
    case True
    then show ?thesis unfolding show_nat_lt[OF True] by (simp add: digit_char)
  next
    case False
    have "n mod 10 < 10" by simp
    then have "is_digit (char_of (48 + n mod 10))" using digit_char by blast
    with 1[OF False] show ?thesis unfolding show_nat_ge[OF False] by simp
  qed
qed

lemma parseInt_show_nat: "parseInt (show_nat n) = n"
proof (induction n rule: show_nat.induct)
  case (1 n)
  show ?case
  proof (cases "n < 10")
    case True
    then have "of_char (char_of (48 + n)) - 48 = n" using digit_char by blast
    then show ?thesis unfolding show_nat_lt[OF True] using parseInt_snoc[of "[]" "char_of (48 + n)"]
      by (simp add: parseInt_Nil)
  next
    case False
    have "n mod 10 < 10" by simp
    then have "of_char (char_of (48 + n mod 10)) - 48 = n mod 10" using digit_char by blast
    with 1[OF False] show ?thesis unfolding show_nat_ge[OF False] parseInt_snoc by simp
  qed
qed

lemma parseAgeMinutes_numeral:
  assumes "u \<in> set TIME_UNITS"
  shows "parseAgeMinutes (Some (show_nat n @ '' '' @ u @ rest)) = real n * timeUnitToMinutes u"
  using parseAgeMinutes_plain[of "show_nat n" u rest] show_nat_digits[of n] assms
  by (simp add: parseInt_show_nat)

text \<open>
  C6. \<open>parseAgeMinutes\<close> multiplies the number of the leftmost "digits, white space, unit"
  in the lower-cased descriptor by the unit's multiplier: second 1/60, minute 1, hour 60,
  day 1440, week 10080, month 43200, year 525600. The number is the decimal value of the
  digits: a descriptor that starts with the decimal numeral of \<open>k\<close>, a space and a unit
  is worth \<open>k\<close> times the unit. A missing or empty descriptor, and one in which no such
  match is found, give 525600 (the branch for "streamed" descriptors finds nothing that the
  first expression has not found), and no match is found exactly when the lower-cased
  descriptor contains no digits followed by white space and a unit. "streamed 3 days ago"
  is 4320 minutes.
\<close>

theorem parseAgeMinutes_spec:
  "parseAgeMinutes None = 525600 \<and>
   parseAgeMinutes (Some []) = 525600 \<and>
   (search_age (toLowerCase a) = None \<longrightarrow> parseAgeMinutes (Some a) = 525600) \<and>
   (search_age (toLowerCase a) = Some (ds, u) \<longrightarrow>
      ds \<noteq> [] \<and> (\<forall>c\<in>set ds. is_digit c) \<and> u \<in> set TIME_UNITS \<and>
      parseAgeMinutes (Some a) = real (parseInt ds) * timeUnitToMinutes u \<and>
      (\<exists>pre t. toLowerCase a = pre @ t \<and> age_phrase ds u t \<and>
         (\<forall>pre' t' n v. toLowerCase a = pre' @ t' \<and> age_phrase n v t' \<longrightarrow>
            length pre \<le> length pre'))) \<and>
   map timeUnitToMinutes TIME_UNITS = [1 / 60, 1, 60, 1440, 10080, 43200, 525600] \<and>
   (ds' \<noteq> [] \<and> (\<forall>c\<in>set ds'. is_digit c) \<and> u' \<in> set TIME_UNITS \<longrightarrow>
      parseAgeMinutes (Some (ds' @ '' '' @ u' @ rest)) = real (parseInt ds') * timeUnitToMinutes u') \<and>
   parseAgeMinutes (Some ''streamed 3 days ago'') = 4320 \<and>
   (search_age (toLowerCase a) = None) =
     (\<not> (\<exists>pre n v t. toLowerCase a = pre @ t \<and> age_phrase n v t)) \<and>
   parseInt [] = 0 \<and>
   parseInt (ds0 @ [d]) = 10 * parseInt ds0 + (of_char d - 48) \<and>
   parseInt (show_nat k) = k \<and>
   (u' \<in> set TIME_UNITS \<longrightarrow>
      parseAgeMinutes (Some (show_nat k @ '' '' @ u' @ rest)) = real k * timeUnitToMinutes u')"
proof -
  have "parseAgeMinutes None = 525600" "parseAgeMinutes (Some []) = 525600"
    by (simp_all add: parseAgeMinutes_def)
  moreover have "(search_age (toLowerCase a) = None) =
     (\<not> (\<exists>pre n v t. toLowerCase a = pre @ t \<and> age_phrase n v t))"
    by (rule search_age_iff)
  moreover have "ds \<noteq> [] \<and> (\<forall>c\<in>set ds. is_digit c) \<and> u \<in> set TIME_UNITS \<and>
      parseAgeMinutes (Some a) = real (parseInt ds) * timeUnitToMinutes u \<and>
      (\<exists>pre t. toLowerCase a = pre @ t \<and> age_phrase ds u t \<and>
         (\<forall>pre' t' n v. toLowerCase a = pre' @ t' \<and> age_phrase n v t' \<longrightarrow>
            length pre \<le> length pre'))"
    if s: "search_age (toLowerCase a) = Some (ds, u)"
    using search_age_Some[OF s] parseAgeMinutes_parsed[OF search_age_nonempty[OF s] s]
      search_age_leftmost[OF s] by simp
  moreover have "search_age (toLowerCase a) = None \<longrightarrow> parseAgeMinutes (Some a) = 525600"
    using parseAgeMinutes_unparsed[of a] by blast
  moreover have "ds' \<noteq> [] \<and> (\<forall>c\<in>set ds'. is_digit c) \<and> u' \<in> set TIME_UNITS \<longrightarrow>
      parseAgeMinutes (Some (ds' @ '' '' @ u' @ rest)) = real (parseInt ds') * timeUnitToMinutes u'"
    using parseAgeMinutes_plain[of ds' u' rest] by blast
  moreover have "u' \<in> set TIME_UNITS \<longrightarrow>
      parseAgeMinutes (Some (show_nat k @ '' '' @ u' @ rest)) = real k * timeUnitToMinutes u'"
    using parseAgeMinutes_numeral[of u' k rest] by blast
  moreover have "parseInt [] = 0" "parseInt (ds0 @ [d]) = 10 * parseInt ds0 + (of_char d - 48)"
    by (simp_all add: parseInt_def)
  moreover note timeUnitToMinutes_table parseAgeMinutes_streamed parseInt_show_nat[of k]
  ultimately show ?thesis by (intro conjI impI) (blast+)?
qed

theorem parseAgeMinutes_spec_witness:
  "search_age (toLowerCase ''Unknown'') = None \<and> parseAgeMinutes (Some ''Unknown'') = 525600 \<and>
   search_age (toLowerCase ''Streamed 2 Weeks ago'') = Some (''2'', ''week'') \<and>
   parseAgeMinutes (Some ''Streamed 2 Weeks ago'') = 20160 \<and>
   list_all is_digit ''15'' \<and> ''hour'' \<in> set TIME_UNITS \<and> parseInt ''15'' = 15 \<and>
   parseAgeMinutes (Some ''15 hours ago'') = 900 \<and>
   show_nat 45 = ''45'' \<and> ''second'' \<in> set TIME_UNITS \<and>
   parseAgeMinutes (Some ''45 seconds ago'') = 3 / 4"
proof -
  have n: "search_age (toLowerCase ''Unknown'') = None" by code_simp
  have s: "search_age (toLowerCase ''Streamed 2 Weeks ago'') = Some (''2'', ''week'')" by code_simp
  have d: "\<forall>c\<in>set ''15''. is_digit c" by code_simp
  have u: "''hour'' \<in> set TIME_UNITS" "''second'' \<in> set TIME_UNITS" by code_simp+
  have p: "parseInt ''15'' = 15" "parseInt ''2'' = 2" by code_simp+
  have sh: "show_nat 45 = ''45''" by code_simp
  have m: "timeUnitToMinutes ''hour'' = 60" "timeUnitToMinutes ''week'' = 10080"
    "timeUnitToMinutes ''second'' = 1 / 60"
    by (simp_all add: timeUnitToMinutes_def)
  note t1 = parseAgeMinutes_spec[where a="''Unknown''" and ds'="''15''" and u'="''hour''" and rest="''s ago''"]
  note t2 = parseAgeMinutes_spec[where a="''Streamed 2 Weeks ago''" and ds="''2''" and u="''week''"
      and u'="''second''" and k=45 and rest="''s ago''"]
  from t1 n have a: "parseAgeMinutes (Some ''Unknown'') = 525600" by blast
  from t2 s have "parseAgeMinutes (Some ''Streamed 2 Weeks ago'') =
      real (parseInt ''2'') * timeUnitToMinutes ''week''" by blast
  then have b: "parseAgeMinutes (Some ''Streamed 2 Weeks ago'') = 20160" unfolding p m by simp
  from t1 d u have "parseAgeMinutes (Some (''15'' @ '' '' @ ''hour'' @ ''s ago'')) =
     real (parseInt ''15'') * timeUnitToMinutes ''hour''" by blast
  then have c: "parseAgeMinutes (Some ''15 hours ago'') = 900" unfolding p m by simp
  from t2 u have "parseAgeMinutes (Some (show_nat 45 @ '' '' @ ''second'' @ ''s ago'')) =
     real 45 * timeUnitToMinutes ''second''" by blast
  then have e: "parseAgeMinutes (Some ''45 seconds ago'') = 3 / 4" unfolding sh m by simp
  from n s d u p a b c sh e show ?thesis unfolding list_all_iff by blast
qed

section \<open>Properties of scoring\<close>


lemma str_includes_sublist: "str_includes hay needle = sublist needle hay"
  by (induction hay) (auto simp: sublist_Cons_right)

lemma fold_count_matches:
  "fold (\<lambda>keyword acc. if P keyword then acc + 1 else acc) ks (n::nat) =
   n + length (filter P ks)"
  by (induction ks arbitrary: n) auto

lemma video_text_eq:
  "video_text video = toLowerCase (title video @ '' '' @ or_else (description video) [])"
  by (simp add: video_text_def or_else_def)

lemma scoreVideo_relevance: "snd (scoreVideo video keywords) = verbatim_relevance video keywords"
  by (simp add: scoreVideo_def verbatim_relevance_def Let_def fold_count_matches
        str_includes_sublist video_text_eq)

lemma scoreVideo_score:
  "fst (scoreVideo video keywords) =
   6 / 10 * viewScore video + 3 / 10 * ageScore video + 4 / 10 * snd (scoreVideo video keywords)"
  by (simp add: scoreVideo_def Let_def)

lemma verbatim_is_spec:
  "\<forall>k\<in>set keywords. toLowerCase k = k \<Longrightarrow>
   verbatim_relevance video keywords = spec_relevance video keywords"
proof -
  assume "\<forall>k\<in>set keywords. toLowerCase k = k"
  then have "filter (\<lambda>keyword. sublist keyword (toLowerCase (title video @ '' '' @ or_else (description video) []))) keywords
     = filter (\<lambda>keyword. sublist (toLowerCase keyword) (toLowerCase (title video @ '' '' @ or_else (description video) []))) keywords"
    by (intro filter_cong) auto
  then show ?thesis by (simp add: verbatim_relevance_def spec_relevance_def)
qed

lemma tokenize_lower: "k \<in> set (tokenize T) \<Longrightarrow> toLowerCase k = k"
  using tokenize_chars[of k T] by (auto simp: toLowerCase_def lower_char_fix intro!: map_idI)

lemma request_tokens_lower: "k \<in> set (request_tokens body t) \<Longrightarrow> toLowerCase k = k"
  by (auto simp: request_tokens_def Let_def tokenize_lower split: if_splits)

text \<open>
  C1. For keywords in lower case, as every keyword list that the handler passes is,
  \<open>scoreVideo\<close> returns the score \<open>0.6 * viewScore + 0.3 * ageScore + 0.4 * relevance\<close> and
  the relevance, where \<open>viewScore = log10(views + 1) / 6\<close> with absent views counted as 0,
  \<open>ageScore = exp(-ageMinutes / 30240)\<close>, and the relevance is the fraction of the
  keywords that occur, regardless of case, in the title, a space and the description.
  Without keywords the relevance is 0.3. For any keywords, the relevance counts those that
  occur as they are in the lower-cased text.
\<close>

theorem scoreVideo_spec:
  "((\<forall>k\<in>set keywords. toLowerCase k = k) \<longrightarrow>
      scoreVideo video keywords =
        (6 / 10 * (log 10 (real (case views video of None \<Rightarrow> 0 | Some n \<Rightarrow> n) + 1) / 6) +
         3 / 10 * exp (- parseAgeMinutes (ago video) / 30240) +
         4 / 10 * spec_relevance video keywords,
         spec_relevance video keywords)) \<and>
   (\<forall>k\<in>set (request_tokens body t). toLowerCase k = k) \<and>
   (\<forall>k\<in>set (tokenize T). toLowerCase k = k) \<and>
   snd (scoreVideo video []) = 3 / 10 \<and>
   spec_relevance video [] = 3 / 10 \<and>
   scoreVideo video keywords =
     (6 / 10 * (log 10 (real (case views video of None \<Rightarrow> 0 | Some n \<Rightarrow> n) + 1) / 6) +
      3 / 10 * exp (- parseAgeMinutes (ago video) / 30240) +
      4 / 10 * verbatim_relevance video keywords,
      verbatim_relevance video keywords)"
proof -
  have "scoreVideo video keywords = (fst (scoreVideo video keywords), snd (scoreVideo video keywords))"
    by simp
  then have v: "scoreVideo video keywords =
     (6 / 10 * (log 10 (real (case views video of None \<Rightarrow> 0 | Some n \<Rightarrow> n) + 1) / 6) +
      3 / 10 * exp (- parseAgeMinutes (ago video) / 30240) +
      4 / 10 * verbatim_relevance video keywords,
      verbatim_relevance video keywords)"
    unfolding scoreVideo_score unfolding scoreVideo_relevance
    by (simp add: viewScore_def view_count_def ageScore_def)
  have "snd (scoreVideo video []) = 3 / 10"
    by (simp add: scoreVideo_relevance verbatim_relevance_def)
  moreover have "spec_relevance video [] = 3 / 10" by (simp add: spec_relevance_def)
  ultimately show ?thesis
    using v verbatim_is_spec[of "keywords" video]
      request_tokens_lower[of _ body t] tokenize_lower[of _ T]
    by auto
qed

theorem scoreVideo_spec_witness:
  "list_all (\<lambda>k. toLowerCase k = k) [''tools'', ''cats''] \<and>
   views (example_video (Some ''a'') ''AI Tools''\<lparr>views := Some 9\<rparr>) = Some 9 \<and>
   spec_relevance (example_video (Some ''a'') ''AI Tools''\<lparr>views := Some 9\<rparr>) [''tools'', ''cats''] = 1 / 2 \<and>
   scoreVideo (example_video (Some ''a'') ''AI Tools''\<lparr>views := Some 9\<rparr>) [''tools'', ''cats''] =
     (1 / 10 + 3 / 10 * exp (- (365 / 21)) + 2 / 10, 1 / 2) \<and>
   request_tokens (example_request ''AI Tools'') ''AI Tools'' = [''tools''] \<and>
   scoreVideo (example_video (Some ''a'') ''AI Tools'') (request_tokens (example_request ''AI Tools'') ''AI Tools'') =
     (3 / 10 * exp (- (365 / 21)) + 4 / 10, 1)"
proof -
  let ?v = "example_video (Some ''a'') ''AI Tools''\<lparr>views := Some 9\<rparr>"
  let ?w = "example_video (Some ''a'') ''AI Tools''"
  have l: "\<forall>k\<in>set [''tools'', ''cats'']. toLowerCase k = k" by code_simp
  have s: "spec_relevance ?v [''tools'', ''cats''] = 1 / 2" by code_simp
  have vw: "views ?v = Some 9" "ago ?v = None" "views ?w = None" "ago ?w = None"
    by (simp_all add: example_video_def)
  have a: "parseAgeMinutes None = 525600" by (simp add: parseAgeMinutes_def)
  have rt: "request_tokens (example_request ''AI Tools'') ''AI Tools'' = [''tools'']" by code_simp
  have s2: "spec_relevance ?w [''tools''] = 1" by code_simp
  note t = scoreVideo_spec[of "[''tools'', ''cats'']" ?v]
  from t l have "scoreVideo ?v [''tools'', ''cats''] =
        (6 / 10 * (log 10 (real (case views ?v of None \<Rightarrow> 0 | Some n \<Rightarrow> n) + 1) / 6) +
         3 / 10 * exp (- parseAgeMinutes (ago ?v) / 30240) +
         4 / 10 * spec_relevance ?v [''tools'', ''cats''],
         spec_relevance ?v [''tools'', ''cats''])" by blast
  then have e1: "scoreVideo ?v [''tools'', ''cats''] = (1 / 10 + 3 / 10 * exp (- (365 / 21)) + 2 / 10, 1 / 2)"
    unfolding vw s a by simp
  note t2 = scoreVideo_spec[of "request_tokens (example_request ''AI Tools'') ''AI Tools''" ?w
      "example_request ''AI Tools''" "''AI Tools''"]
  from t2 have "scoreVideo ?w (request_tokens (example_request ''AI Tools'') ''AI Tools'') =
        (6 / 10 * (log 10 (real (case views ?w of None \<Rightarrow> 0 | Some n \<Rightarrow> n) + 1) / 6) +
         3 / 10 * exp (- parseAgeMinutes (ago ?w) / 30240) +
         4 / 10 * spec_relevance ?w (request_tokens (example_request ''AI Tools'') ''AI Tools''),
         spec_relevance ?w (request_tokens (example_request ''AI Tools'') ''AI Tools''))" by blast
  then have e2: "scoreVideo ?w (request_tokens (example_request ''AI Tools'') ''AI Tools'') =
     (3 / 10 * exp (- (365 / 21)) + 4 / 10, 1)"
    unfolding rt vw s2 a by simp
  from l vw(1) s e1 rt e2 show ?thesis unfolding list_all_iff by simp
qed

lemma viewScore_mono: "view_count v1 \<le> view_count v2 \<Longrightarrow> viewScore v1 \<le> viewScore v2"
  by (simp add: viewScore_def divide_right_mono)

lemma ageScore_anti:
  "parseAgeMinutes (ago v1) \<le> parseAgeMinutes (ago v2) \<Longrightarrow> ageScore v2 \<le> ageScore v1"
  by (simp add: ageScore_def divide_right_mono)

lemma scoreVideo_views:
  "fst (scoreVideo (v\<lparr>views := x\<rparr>) ks) - fst (scoreVideo v ks) =
   6 / 10 * (viewScore (v\<lparr>views := x\<rparr>) - viewScore v)"
  by (simp add: scoreVideo_def Let_def video_text_def ageScore_def algebra_simps)

lemma scoreVideo_ago:
  "fst (scoreVideo (v\<lparr>ago := a\<rparr>) ks) - fst (scoreVideo v ks) =
   3 / 10 * (ageScore (v\<lparr>ago := a\<rparr>) - ageScore v)"
  by (simp add: scoreVideo_def Let_def video_text_def viewScore_def view_count_def algebra_simps)

text \<open>
  C7. A strictly higher view count does not lower the view score, and a descriptor that
  parses to strictly more minutes does not raise the age score; so raising the views of a
  candidate does not lower its score, and replacing its descriptor by an older one does
  not raise it.
\<close>

theorem scoring_monotonic:
  "(view_count v1 < view_count v2 \<longrightarrow> viewScore v1 \<le> viewScore v2) \<and>
   (parseAgeMinutes (ago v1) < parseAgeMinutes (ago v2) \<longrightarrow> ageScore v2 \<le> ageScore v1) \<and>
   (view_count v < n \<longrightarrow> fst (scoreVideo v ks) \<le> fst (scoreVideo (v\<lparr>views := Some n\<rparr>) ks)) \<and>
   (parseAgeMinutes (ago v) < parseAgeMinutes a \<longrightarrow>
      fst (scoreVideo (v\<lparr>ago := a\<rparr>) ks) \<le> fst (scoreVideo v ks))"
proof -
  have "viewScore v \<le> viewScore (v\<lparr>views := Some n\<rparr>)" if "view_count v < n"
    using that by (intro viewScore_mono) (simp add: view_count_def)
  then have a: "view_count v < n \<longrightarrow> fst (scoreVideo v ks) \<le> fst (scoreVideo (v\<lparr>views := Some n\<rparr>) ks)"
    using scoreVideo_views[of "Some n" v ks] by auto
  have "ageScore (v\<lparr>ago := a\<rparr>) \<le> ageScore v" if "parseAgeMinutes (ago v) < parseAgeMinutes a"
    using that by (intro ageScore_anti) simp
  then have b: "parseAgeMinutes (ago v) < parseAgeMinutes a \<longrightarrow>
      fst (scoreVideo (v\<lparr>ago := a\<rparr>) ks) \<le> fst (scoreVideo v ks)"
    using scoreVideo_ago[of a v ks] by auto
  from a b show ?thesis
    using viewScore_mono[of v1 v2] ageScore_anti[of v1 v2] by auto
qed

theorem scoring_monotonic_witness:
  "view_count (example_video (Some ''a'') ''t'') < view_count (example_video (Some ''a'') ''t''\<lparr>views := Some 9\<rparr>) \<and>
   viewScore (example_video (Some ''a'') ''t'') \<le> viewScore (example_video (Some ''a'') ''t''\<lparr>views := Some 9\<rparr>) \<and>
   parseAgeMinutes (ago (example_video (Some ''a'') ''t''\<lparr>ago := Some ''3 days ago''\<rparr>)) <
     parseAgeMinutes (ago (example_video (Some ''a'') ''t'')) \<and>
   ageScore (example_video (Some ''a'') ''t'') \<le> ageScore (example_video (Some ''a'') ''t''\<lparr>ago := Some ''3 days ago''\<rparr>) \<and>
   view_count (example_video (Some ''a'') ''t'') < 9 \<and>
   fst (scoreVideo (example_video (Some ''a'') ''t'') [''cat'']) \<le>
     fst (scoreVideo (example_video (Some ''a'') ''t''\<lparr>views := Some 9\<rparr>) [''cat''])"
proof -
  let ?v = "example_video (Some ''a'') ''t''"
  have v: "view_count ?v < view_count (?v\<lparr>views := Some 9\<rparr>)" "view_count ?v < 9"
    by (simp_all add: view_count_def example_video_def)
  have "parseAgeMinutes (Some ''3 days ago'') = 4320"
    by (simp add: parseAgeMinutes_def toLowerCase_def lower_char_def match_age_at_def
        match_unit_def TIME_UNITS_def is_digit_def is_space_def parseInt_def timeUnitToMinutes_def)
  moreover have "parseAgeMinutes None = 525600" by (simp add: parseAgeMinutes_def)
  ultimately have a: "parseAgeMinutes (ago (?v\<lparr>ago := Some ''3 days ago''\<rparr>)) < parseAgeMinutes (ago ?v)"
    by (simp add: example_video_def)
  note t1 = scoring_monotonic[of ?v "?v\<lparr>views := Some 9\<rparr>" ?v 9 "[''cat'']"]
  note t2 = scoring_monotonic[of "?v\<lparr>ago := Some ''3 days ago''\<rparr>" ?v]
  from t1 v t2 a show ?thesis by blast
qed

section \<open>Properties of the outline\<close>


lemma show_nat_small: "show_nat 1 = ''1''" "show_nat 2 = ''2''" "show_nat 3 = ''3''"
  by code_simp+

lemma enumerate_take3:
  "List.enumerate 0 (take 3 themes) = zip [0..<min 3 (length themes)] (take 3 themes)"
  by (simp add: enumerate_eq_zip min.commute)

lemma buildOutline_length: "length (buildOutline topic' themes) = 2 + min 3 (length themes)"
  by (simp add: buildOutline_def min.commute)

lemma buildOutline_nth:
  assumes "i < min 3 (length themes)"
  shows "buildOutline topic' themes ! Suc i = breakdown_segment i (themes ! i)"
proof -
  let ?bs = "map (\<lambda>(index, theme). breakdown_segment index theme) (List.enumerate 0 (take 3 themes))"
  have l: "length ?bs = min 3 (length themes)" by (simp add: min.commute)
  have "buildOutline topic' themes ! Suc i = (?bs @ [cta_segment]) ! i"
    by (simp add: buildOutline_def)
  also have "\<dots> = ?bs ! i" using assms l by (simp add: nth_append)
  also have "\<dots> = breakdown_segment i (themes ! i)"
    using assms by (simp add: nth_enumerate_eq)
  finally show ?thesis .
qed

lemma breakdown_hints:
  "i < 3 \<Longrightarrow> durationHint (breakdown_segment i theme) = [''0:45 - 2:30'', ''2:30 - 4:00'', ''4:00 - 5:30''] ! i"
  "i < 3 \<Longrightarrow> seg_title (breakdown_segment i theme) =
     ''Breakdown '' @ [''1'', ''2'', ''3''] ! i @ '': '' @ capitalize_first theme"
proof -
  assume "i < 3"
  then consider "i = 0" | "i = 1" | "i = 2" by linarith
  then show "durationHint (breakdown_segment i theme) = [''0:45 - 2:30'', ''2:30 - 4:00'', ''4:00 - 5:30''] ! i"
    by cases (simp_all add: breakdown_segment_def)
  from \<open>i < 3\<close> consider "i = 0" | "i = 1" | "i = 2" by linarith
  then show "seg_title (breakdown_segment i theme) =
     ''Breakdown '' @ [''1'', ''2'', ''3''] ! i @ '': '' @ capitalize_first theme"
    using show_nat_small by cases (simp_all add: breakdown_segment_def numeral_2_eq_2 numeral_3_eq_3)
qed

lemma buildOutline_threes:
  "s \<in> set (buildOutline topic' themes) \<Longrightarrow> length (talkingPoints s) = 3 \<and> length (brollIdeas s) = 3"
  by (auto simp: buildOutline_def hook_segment_def cta_segment_def breakdown_segment_def)

lemma capitalize_first_lower:
  "is_lower c \<Longrightarrow> capitalize_first (c # cs) = char_of (of_char c - (32::nat)) # cs"
  by (simp add: capitalize_first_def is_lower_def is_word_char_def upper_word_char_def Let_def)

lemma capitalize_first_digit: "is_digit c \<Longrightarrow> capitalize_first (c # cs) = c # cs"
  by (auto simp add: capitalize_first_def is_digit_def is_word_char_def upper_word_char_def Let_def)

lemma capitalize_first_Cons:
  "capitalize_first (c # cs) = (if is_lower c then char_of (of_char c - (32::nat)) else c) # cs"
  by (simp add: capitalize_first_def is_lower_def is_word_char_def upper_word_char_def Let_def)

lemma capitalize_first_Nil: "capitalize_first [] = []"
  by (simp add: capitalize_first_def)

lemma aggregateKeywords_first_char:
  assumes "w \<in> set (aggregateKeywords texts)"
  shows "w \<noteq> [] \<and> (is_lower (hd w) \<or> is_digit (hd w))"
proof -
  from assms have "w \<in> set (ranked_words texts)"
    unfolding aggregateKeywords_take by (rule in_set_takeD)
  with ranked_words_props[of texts] have "w \<in> set (all_tokens texts)" by simp
  then obtain T where "w \<in> set (tokenize T)" by (auto simp: all_tokens_def)
  from tokenize_chars[OF this] have "\<forall>c\<in>set w. is_lower c \<or> is_digit c" "3 \<le> length w"
    by simp_all
  then show ?thesis by (cases w) auto
qed

text \<open>
  C8 (amended). \<open>buildOutline\<close> returns \<open>2 + min 3 (number of themes)\<close> segments, five when
  there are at least three themes: "Hook & Context" with 0:00 - 0:45 first, one "Breakdown
  N" segment for each of the first three themes, with the ranges 0:45 - 2:30, 2:30 - 4:00
  and 4:00 - 5:30 and the theme with its first character capitalized in its title, and
  "Action Plan & CTA" with 5:30 - 7:00 last. Every segment has exactly 3 talking points and
  exactly 3 b-roll ideas. Capitalizing turns a leading a-z into A-Z and leaves any other
  leading character; the words of \<open>aggregateKeywords\<close>, from which the handler takes the
  themes, start with a-z or 0-9.
\<close>

theorem buildOutline_spec:
  "length (buildOutline topic' themes) = 2 + min 3 (length themes) \<and>
   hd (buildOutline topic' themes) = hook_segment topic' \<and>
   seg_title (hook_segment topic') = ''Hook & Context'' \<and>
   durationHint (hook_segment topic') = ''0:00 - 0:45'' \<and>
   last (buildOutline topic' themes) = cta_segment \<and>
   seg_title cta_segment = ''Action Plan & CTA'' \<and>
   durationHint cta_segment = ''5:30 - 7:00'' \<and>
   (\<forall>i. i < min 3 (length themes) \<longrightarrow>
      buildOutline topic' themes ! Suc i = breakdown_segment i (themes ! i) \<and>
      seg_title (breakdown_segment i (themes ! i)) =
        ''Breakdown '' @ [''1'', ''2'', ''3''] ! i @ '': '' @ capitalize_first (themes ! i) \<and>
      durationHint (breakdown_segment i (themes ! i)) =
        [''0:45 - 2:30'', ''2:30 - 4:00'', ''4:00 - 5:30''] ! i) \<and>
   (\<forall>s\<in>set (buildOutline topic' themes). length (talkingPoints s) = 3 \<and> length (brollIdeas s) = 3) \<and>
   capitalize_first [] = [] \<and>
   capitalize_first (c # cs) = (if is_lower c then char_of (of_char c - (32::nat)) else c) # cs \<and>
   (\<forall>w\<in>set (aggregateKeywords texts). w \<noteq> [] \<and> (is_lower (hd w) \<or> is_digit (hd w)))"
proof -
  have a: "hd (buildOutline topic' themes) = hook_segment topic'"
    "last (buildOutline topic' themes) = cta_segment"
    by (simp_all add: buildOutline_def)
  have b: "seg_title (hook_segment topic') = ''Hook & Context''"
    "durationHint (hook_segment topic') = ''0:00 - 0:45''"
    "seg_title cta_segment = ''Action Plan & CTA''"
    "durationHint cta_segment = ''5:30 - 7:00''"
    by (simp_all add: hook_segment_def cta_segment_def)
  have c: "buildOutline topic' themes ! Suc i = breakdown_segment i (themes ! i) \<and>
      seg_title (breakdown_segment i (themes ! i)) =
        ''Breakdown '' @ [''1'', ''2'', ''3''] ! i @ '': '' @ capitalize_first (themes ! i) \<and>
      durationHint (breakdown_segment i (themes ! i)) =
        [''0:45 - 2:30'', ''2:30 - 4:00'', ''4:00 - 5:30''] ! i"
    if "i < min 3 (length themes)" for i
    using that buildOutline_nth[OF that] breakdown_hints[of i "themes ! i"] by simp
  have d: "\<forall>w\<in>set (aggregateKeywords texts). w \<noteq> [] \<and> (is_lower (hd w) \<or> is_digit (hd w))"
    using aggregateKeywords_first_char by blast
  from a b c d show ?thesis
    using buildOutline_length[of topic' themes] buildOutline_threes[of _ topic' themes]
      capitalize_first_Nil capitalize_first_Cons[of c cs]
    by blast
qed

theorem buildOutline_spec_witness:
  "(1::nat) < min 3 (length [''tools'', ''2fast'', ''growth'', ''extra'']) \<and>
   buildOutline ''AI'' [''tools'', ''2fast'', ''growth'', ''extra''] ! Suc 1 =
     breakdown_segment 1 ''2fast'' \<and>
   seg_title (breakdown_segment 1 ''2fast'') = ''Breakdown 2: 2fast'' \<and>
   seg_title (breakdown_segment 0 ''tools'') = ''Breakdown 1: Tools'' \<and>
   durationHint (breakdown_segment 1 ''2fast'') = ''2:30 - 4:00'' \<and>
   length (buildOutline ''AI'' [''tools'', ''2fast'', ''growth'', ''extra'']) = 5 \<and>
   cta_segment \<in> set (buildOutline ''AI'' [''tools'', ''2fast'', ''growth'', ''extra'']) \<and>
   length (talkingPoints cta_segment) = 3 \<and>
   capitalize_first ''tools'' = ''Tools'' \<and>
   capitalize_first ''2fast'' = ''2fast'' \<and>
   capitalize_first ''Tools'' = ''Tools'' \<and>
   aggregateKeywords [''growth tools 2fast growth''] = [''growth'', ''tools'', ''2fast''] \<and>
   is_lower (hd ''growth'')"
proof -
  let ?themes = "[''tools'', ''2fast'', ''growth'', ''extra'']"
  note t = buildOutline_spec[of "''AI''" ?themes "CHR ''t''" "''ools''" "[''growth tools 2fast growth'']"]
  note t2 = buildOutline_spec[of "''AI''" ?themes "CHR ''2''" "''fast''"]
  note t3 = buildOutline_spec[of "''AI''" ?themes "CHR ''T''" "''ools''"]
  have i: "(1::nat) < min 3 (length ?themes)" "(0::nat) < min 3 (length ?themes)" by simp_all
  have m: "cta_segment \<in> set (buildOutline ''AI'' ?themes)" by (simp add: buildOutline_def)
  have c: "is_lower CHR ''t''" "\<not> is_lower CHR ''2''" "\<not> is_lower CHR ''T''"
    by (simp_all add: is_lower_def)
  have u: "char_of (of_char CHR ''t'' - (32::nat)) = CHR ''T''" by code_simp
  have k: "aggregateKeywords [''growth tools 2fast growth''] = [''growth'', ''tools'', ''2fast'']"
    by code_simp
  from t c u have ct: "capitalize_first ''tools'' = ''Tools''" by simp
  from t2 c have c2: "capitalize_first ''2fast'' = ''2fast''" by simp
  from t3 c have c3: "capitalize_first ''Tools'' = ''Tools''" by simp
  from t i(1) have "buildOutline ''AI'' ?themes ! Suc 1 = breakdown_segment 1 (?themes ! 1) \<and>
      seg_title (breakdown_segment 1 (?themes ! 1)) =
        ''Breakdown '' @ [''1'', ''2'', ''3''] ! 1 @ '': '' @ capitalize_first (?themes ! 1) \<and>
      durationHint (breakdown_segment 1 (?themes ! 1)) =
        [''0:45 - 2:30'', ''2:30 - 4:00'', ''4:00 - 5:30''] ! 1"
    by blast
  moreover from t i(2) have "seg_title (breakdown_segment 0 (?themes ! 0)) =
        ''Breakdown '' @ [''1'', ''2'', ''3''] ! 0 @ '': '' @ capitalize_first (?themes ! 0)"
    by blast
  moreover from t m have "length (talkingPoints cta_segment) = 3" by blast
  moreover from t have "length (buildOutline ''AI'' ?themes) = 5" by simp
  moreover from t k have "is_lower (hd ''growth'') \<or> is_digit (hd ''growth'')" by simp
  moreover have "\<not> is_digit (hd ''growth'')" by (simp add: is_digit_def)
  ultimately show ?thesis using i m ct c2 c3 k by simp
qed

text \<open>With a single theme the outline has three segments, not five.\<close>

theorem buildOutline_five_counterexample:
  "length (buildOutline ''AI'' [''tools'']) = 3 \<and> length (buildOutline ''AI'' [''tools'']) \<noteq> 5"
  by (simp add: buildOutline_def)

section \<open>Properties of the ranking and of the handler\<close>

lemma insights_sorted: "sorted_wrt (\<lambda>a b. score b \<le> score a) (insights combinedRaw toks)"
proof -
  let ?xs = "map (to_insight toks) combinedRaw"
  have "sorted_wrt (\<lambda>a b. True) ?xs" by (induction ?xs) simp_all
  then have "sorted_wrt (\<lambda>a b. - score a < - score b \<or> (- score a = - score b \<and> True))
      (sort_by (\<lambda>a b. score b - score a) ?xs)"
    by (intro sorted_wrt_sort_by) auto
  then have "sorted_wrt (\<lambda>a b. score b \<le> score a) (sort_by (\<lambda>a b. score b - score a) ?xs)"
    by (rule sorted_wrt_mono_rel[rotated]) auto
  then show ?thesis unfolding insights_def by (rule sorted_wrt_take)
qed

lemma insights_length: "length (insights combinedRaw toks) = min 12 (length combinedRaw)"
  by (simp add: insights_def length_sort_by min.commute)

lemma insights_set: "set (insights combinedRaw toks) \<subseteq> to_insight toks ` set combinedRaw"
  using set_take_subset[of 12 "sort_by (\<lambda>a b. score b - score a) (map (to_insight toks) combinedRaw)"]
  by (simp add: insights_def set_sort_by)

lemma POST_400:
  "topic body = None \<or> (\<exists>t. topic body = Some t \<and> trim t = []) \<Longrightarrow>
   POST provider (Some body) = (ErrorJson 400 ''Topic is required'', [])"
  by (auto simp: POST_def)

lemma POST_no_candidates:
  assumes "topic body = Some t" "trim t \<noteq> []"
    and "provider (trim t) = Some p" "provider (trim t @ '' trending'') = Some tr"
      "provider (''best '' @ trim t) = Some e"
    and "dedupeVideos (p @ tr @ e) = []"
  shows "POST provider (Some body) =
     (ErrorJson 404 ''No videos found for the provided topic.'', provider_queries (trim t))"
  using assms by (simp add: POST_def provider_queries_def Let_def)

lemma POST_Json:
  assumes "POST provider request = (Json r, qs)"
  shows "\<exists>body t p tr e. request = Some body \<and> topic body = Some t \<and> trim t \<noteq> [] \<and>
     provider (trim t) = Some p \<and> provider (trim t @ '' trending'') = Some tr \<and>
     provider (''best '' @ trim t) = Some e \<and> qs = provider_queries (trim t) \<and>
     query r = trim t \<and>
     inspiration r = insights (dedupeVideos (p @ tr @ e)) (request_tokens body (trim t)) \<and>
     keyThemes r = take 5 (aggregateKeywords
       (map (\<lambda>video. insight_title video @ '' '' @ insight_description video) (inspiration r))) \<and>
     outline r = buildOutline (query r) (keyThemes r)"
proof -
  from assms obtain body where b: "request = Some body"
    by (cases request) (auto simp: POST_def)
  from assms b obtain t where t: "topic body = Some t" "trim t \<noteq> []"
    by (cases "topic body") (auto simp: POST_def split: if_splits)
  from assms b t obtain p tr e where pr: "provider (trim t) = Some p"
    "provider (trim t @ '' trending'') = Some tr" "provider (''best '' @ trim t) = Some e"
    by (cases "provider (trim t)"; cases "provider (trim t @ '' trending'')";
        cases "provider (''best '' @ trim t)")
       (auto simp: POST_def provider_queries_def Let_def)
  from assms b t pr have ne: "dedupeVideos (p @ tr @ e) \<noteq> []"
    by (auto simp: POST_def provider_queries_def Let_def split: if_splits)
  from assms b t pr ne have
    "r = \<lparr> query = trim t,
          keyThemes = take 5 (aggregateKeywords
            (map (\<lambda>video. insight_title video @ '' '' @ insight_description video)
               (insights (dedupeVideos (p @ tr @ e)) (request_tokens body (trim t))))),
          outline = buildOutline (trim t) (take 5 (aggregateKeywords
            (map (\<lambda>video. insight_title video @ '' '' @ insight_description video)
               (insights (dedupeVideos (p @ tr @ e)) (request_tokens body (trim t)))))),
          inspiration = insights (dedupeVideos (p @ tr @ e)) (request_tokens body (trim t)),
          metadata = \<lparr> requestedAudience = audience body, tone = style body,
                       meta_durationHint = duration body, meta_language = language body \<rparr> \<rparr>"
    and "qs = provider_queries (trim t)"
    by (simp_all add: POST_def provider_queries_def Let_def request_tokens_def)
  with b t pr show ?thesis by simp
qed

text \<open>
  C9. A request whose topic is missing or empty after trimming is answered with status
  400 and the message "Topic is required", and no query is sent to the provider. A request
  with a topic, for which the three provider queries return empty lists, is answered
  with status 404 and a message that mentions "no videos".
\<close>

theorem POST_errors:
  "(topic body = None \<or> (\<exists>t. topic body = Some t \<and> trim t = []) \<longrightarrow>
      POST provider (Some body) = (ErrorJson 400 ''Topic is required'', [])) \<and>
   ''Topic is required'' \<noteq> [] \<and>
   (topic body = Some t \<and> trim t \<noteq> [] \<and>
    (\<forall>q\<in>set (provider_queries (trim t)). provider q = Some []) \<longrightarrow>
      POST provider (Some body) =
        (ErrorJson 404 ''No videos found for the provided topic.'', provider_queries (trim t))) \<and>
   str_includes (toLowerCase ''No videos found for the provided topic.'') ''no videos''"
proof -
  have "POST provider (Some body) =
        (ErrorJson 404 ''No videos found for the provided topic.'', provider_queries (trim t))"
    if "topic body = Some t" "trim t \<noteq> []"
      "\<forall>q\<in>set (provider_queries (trim t)). provider q = Some []"
  proof (rule POST_no_candidates[OF that(1,2)])
    show "provider (trim t) = Some []" "provider (trim t @ '' trending'') = Some []"
      "provider (''best '' @ trim t) = Some []"
      using that(3) by (simp_all add: provider_queries_def)
    show "dedupeVideos ([] @ [] @ []) = []" by (simp add: dedupeVideos_def)
  qed
  moreover have "str_includes (toLowerCase ''No videos found for the provided topic.'') ''no videos''"
    by code_simp
  ultimately show ?thesis using POST_400[of body provider] by blast
qed

theorem POST_errors_witness:
  "topic (example_request ''  '') = Some ''  '' \<and> trim ''  '' = [] \<and>
   POST (\<lambda>q. Some []) (Some (example_request ''  '')) = (ErrorJson 400 ''Topic is required'', []) \<and>
   topic (example_request '' ai tools '') = Some '' ai tools '' \<and> trim '' ai tools '' = ''ai tools'' \<and>
   list_all (\<lambda>q. (\<lambda>q. Some []) q = (Some [] :: VideoSearchResult list option))
     (provider_queries (trim '' ai tools '')) \<and>
   POST (\<lambda>q. Some []) (Some (example_request '' ai tools '')) =
     (ErrorJson 404 ''No videos found for the provided topic.'',
      [''ai tools'', ''ai tools trending'', ''best ai tools''])"
proof -
  have t1: "topic (example_request ''  '') = Some ''  ''" "trim ''  '' = []"
    by (simp_all add: example_request_def trim_def is_space_def)
  have t2: "topic (example_request '' ai tools '') = Some '' ai tools ''"
    by (simp add: example_request_def)
  have t3: "trim '' ai tools '' = ''ai tools''" by code_simp
  have q: "provider_queries ''ai tools'' = [''ai tools'', ''ai tools trending'', ''best ai tools'']"
    by (simp add: provider_queries_def)
  from POST_errors[of "example_request ''  ''" "\<lambda>q. Some []" "''  ''"] t1
  have a: "POST (\<lambda>q. Some []) (Some (example_request ''  '')) = (ErrorJson 400 ''Topic is required'', [])"
    by blast
  from POST_errors[of "example_request '' ai tools ''" "\<lambda>q. Some []" "'' ai tools ''"] t2 t3
  have b: "POST (\<lambda>q. Some []) (Some (example_request '' ai tools '')) =
     (ErrorJson 404 ''No videos found for the provided topic.'', provider_queries ''ai tools'')"
    by simp
  from t1 t2 t3 a b q show ?thesis by (simp add: list_all_iff)
qed

lemma mset_insert_by: "mset (insert_by cmp x ys) = add_mset x (mset ys)"
  by (induction ys) auto

lemma mset_sort_by: "mset (sort_by cmp xs) = mset xs"
  by (induction xs) (simp_all add: sort_by_def mset_insert_by)

lemma insights_top:
  "\<exists>full. insights combinedRaw toks = take 12 full \<and>
      mset full = mset (map (to_insight toks) combinedRaw) \<and>
      sorted_wrt (\<lambda>a b. score b \<le> score a) full"
proof -
  let ?xs = "map (to_insight toks) combinedRaw"
  let ?full = "sort_by (\<lambda>a b. score b - score a) ?xs"
  have "sorted_wrt (\<lambda>a b. True) ?xs" by (induction ?xs) simp_all
  then have "sorted_wrt (\<lambda>a b. - score a < - score b \<or> (- score a = - score b \<and> True)) ?full"
    by (intro sorted_wrt_sort_by) auto
  then have "sorted_wrt (\<lambda>a b. score b \<le> score a) ?full"
    by (rule sorted_wrt_mono_rel[rotated]) auto
  moreover have "mset ?full = mset ?xs" by (rule mset_sort_by)
  moreover have "insights combinedRaw toks = take 12 ?full" by (simp add: insights_def)
  ultimately show ?thesis by blast
qed

text \<open>
  C2. The insight list is the first 12 of the insights of the candidates, each scored by
  \<open>scoreVideo\<close> with the keywords, rearranged in descending order of that score; so it
  is sorted by descending score and has at most 12 elements. In a successful response the
  \<open>inspiration\<close> field is that list for the deduplicated results and the tokens of the
  request, and the themes and the outline are computed from it.
\<close>

theorem insights_ranked:
  "(\<exists>full. insights combinedRaw toks = take 12 full \<and>
      mset full = mset (map (to_insight toks) combinedRaw) \<and>
      sorted_wrt (\<lambda>a b. score b \<le> score a) full) \<and>
   score (to_insight toks v) = fst (scoreVideo v toks) \<and>
   relevance (to_insight toks v) = snd (scoreVideo v toks) \<and>
   insight_id (to_insight toks v) = (case videoId v of None \<Rightarrow> url v | Some i \<Rightarrow> i) \<and>
   insight_title (to_insight toks v) = title v \<and>
   sorted_wrt (\<lambda>a b. score b \<le> score a) (insights combinedRaw toks) \<and>
   length (insights combinedRaw toks) \<le> 12 \<and>
   (\<forall>r qs. POST provider request = (Json r, qs) \<longrightarrow>
      (\<exists>body t p tr e. request = Some body \<and> topic body = Some t \<and>
         provider (trim t) = Some p \<and> provider (trim t @ '' trending'') = Some tr \<and>
         provider (''best '' @ trim t) = Some e \<and>
         inspiration r = insights (dedupeVideos (p @ tr @ e)) (request_tokens body (trim t))) \<and>
      sorted_wrt (\<lambda>a b. score b \<le> score a) (inspiration r) \<and>
      length (inspiration r) \<le> 12 \<and>
      keyThemes r = take 5 (aggregateKeywords
        (map (\<lambda>video. insight_title video @ '' '' @ insight_description video) (inspiration r))) \<and>
      outline r = buildOutline (query r) (keyThemes r))"
proof -
  have "(\<exists>body t p tr e. request = Some body \<and> topic body = Some t \<and>
         provider (trim t) = Some p \<and> provider (trim t @ '' trending'') = Some tr \<and>
         provider (''best '' @ trim t) = Some e \<and>
         inspiration r = insights (dedupeVideos (p @ tr @ e)) (request_tokens body (trim t))) \<and>
      sorted_wrt (\<lambda>a b. score b \<le> score a) (inspiration r) \<and>
      length (inspiration r) \<le> 12 \<and>
      keyThemes r = take 5 (aggregateKeywords
        (map (\<lambda>video. insight_title video @ '' '' @ insight_description video) (inspiration r))) \<and>
      outline r = buildOutline (query r) (keyThemes r)"
    if "POST provider request = (Json r, qs)" for r qs
  proof -
    from POST_Json[OF that] obtain body t p tr e where
      b: "request = Some body" "topic body = Some t"
        "provider (trim t) = Some p" "provider (trim t @ '' trending'') = Some tr"
        "provider (''best '' @ trim t) = Some e"
      and i: "inspiration r = insights (dedupeVideos (p @ tr @ e)) (request_tokens body (trim t))"
      and k: "keyThemes r = take 5 (aggregateKeywords
        (map (\<lambda>video. insight_title video @ '' '' @ insight_description video) (inspiration r)))"
      and o: "outline r = buildOutline (query r) (keyThemes r)"
      by blast
    from i have "sorted_wrt (\<lambda>a b. score b \<le> score a) (inspiration r)"
      "length (inspiration r) \<le> 12"
      by (simp_all add: insights_sorted insights_length)
    with b i k o show ?thesis by blast
  qed
  moreover have "score (to_insight toks v) = fst (scoreVideo v toks) \<and>
     relevance (to_insight toks v) = snd (scoreVideo v toks) \<and>
     insight_id (to_insight toks v) = (case videoId v of None \<Rightarrow> url v | Some i \<Rightarrow> i) \<and>
     insight_title (to_insight toks v) = title v"
    by (simp add: to_insight_def Let_def or_else_def)
  ultimately show ?thesis
    using insights_sorted[of combinedRaw toks] insights_length[of combinedRaw toks]
      insights_top[of combinedRaw toks]
    by simp
qed

lemma example_scores:
  "fst (scoreVideo (example_video i ''AI tools''\<lparr>views := Some 9\<rparr>) ks) -
   fst (scoreVideo (example_video j ''AI tools'') ks) = 1 / 10"
  by (simp add: scoreVideo_def Let_def video_text_def viewScore_def view_count_def ageScore_def
        example_video_def)

theorem insights_ranked_witness:
  "\<exists>r. POST (\<lambda>q. Some [example_video (Some ''a'') ''AI tools'',
                        example_video (Some ''b'') ''AI tools''\<lparr>views := Some 9\<rparr>])
            (Some (example_request ''ai tools'')) =
          (Json r, [''ai tools'', ''ai tools trending'', ''best ai tools'']) \<and>
        map insight_id (inspiration r) = [''b'', ''a''] \<and>
        map score (inspiration r) =
          [fst (scoreVideo (example_video (Some ''b'') ''AI tools''\<lparr>views := Some 9\<rparr>) [''tools'']),
           fst (scoreVideo (example_video (Some ''a'') ''AI tools'') [''tools''])] \<and>
        fst (scoreVideo (example_video (Some ''b'') ''AI tools''\<lparr>views := Some 9\<rparr>) [''tools'']) -
          fst (scoreVideo (example_video (Some ''a'') ''AI tools'') [''tools'']) = 1 / 10 \<and>
        sorted_wrt (\<lambda>a b. score b \<le> score a) (inspiration r) \<and>
        length (inspiration r) \<le> 12 \<and>
        outline r = buildOutline (query r) (keyThemes r)"
proof -
  let ?a = "example_video (Some ''a'') ''AI tools''"
  let ?b = "example_video (Some ''b'') ''AI tools''\<lparr>views := Some 9\<rparr>"
  let ?p = "\<lambda>q :: string. Some [?a, ?b]"
  let ?req = "Some (example_request ''ai tools'')"
  have t: "trim ''ai tools'' = ''ai tools''" by code_simp
  have d: "dedupeVideos ([?a, ?b] @ [?a, ?b] @ [?a, ?b]) = [?a, ?b]" by code_simp
  have rt: "request_tokens (example_request ''ai tools'') ''ai tools'' = [''tools'']" by code_simp
  have "\<exists>r. POST ?p ?req = (Json r, [''ai tools'', ''ai tools trending'', ''best ai tools''])"
    using d by (simp add: POST_def example_request_def t provider_queries_def Let_def)
  then obtain r where r: "POST ?p ?req = (Json r, [''ai tools'', ''ai tools trending'', ''best ai tools''])" ..
  note th = insights_ranked[of "[?a, ?b]" "[''tools'']" _ ?p ?req]
  from th r obtain body t' p' tr e where
    b: "?req = Some body" "topic body = Some t'" "?p (trim t') = Some p'"
      "?p (trim t' @ '' trending'') = Some tr" "?p (''best '' @ trim t') = Some e"
    and i: "inspiration r = insights (dedupeVideos (p' @ tr @ e)) (request_tokens body (trim t'))"
    and rest: "sorted_wrt (\<lambda>a b. score b \<le> score a) (inspiration r)"
      "length (inspiration r) \<le> 12" "outline r = buildOutline (query r) (keyThemes r)"
    by blast
  from b have "body = example_request ''ai tools''" "t' = ''ai tools''" "p' = [?a, ?b]" "tr = [?a, ?b]" "e = [?a, ?b]"
    by (auto simp: example_request_def)
  with i d t rt have i': "inspiration r = insights [?a, ?b] [''tools'']" by simp
  note tha = insights_ranked[of "[?a, ?b]" "[''tools'']" ?a ?p ?req]
  note thb = insights_ranked[of "[?a, ?b]" "[''tools'']" ?b ?p ?req]
  from tha have fa: "score (to_insight [''tools''] ?a) = fst (scoreVideo ?a [''tools''])"
    "insight_id (to_insight [''tools''] ?a) = (case videoId ?a of None \<Rightarrow> url ?a | Some i \<Rightarrow> i)"
    by blast+
  from thb have fb: "score (to_insight [''tools''] ?b) = fst (scoreVideo ?b [''tools''])"
    "insight_id (to_insight [''tools''] ?b) = (case videoId ?b of None \<Rightarrow> url ?b | Some i \<Rightarrow> i)"
    by blast+
  have f: "score (to_insight [''tools''] ?a) = fst (scoreVideo ?a [''tools''])"
    "score (to_insight [''tools''] ?b) = fst (scoreVideo ?b [''tools''])"
    "insight_id (to_insight [''tools''] ?a) = ''a''"
    "insight_id (to_insight [''tools''] ?b) = ''b''"
    using fa fb by (simp_all add: example_video_def)
  note df = example_scores[of "Some ''b''" "[''tools'']" "Some ''a''"]
  have "insights [?a, ?b] [''tools''] = [to_insight [''tools''] ?b, to_insight [''tools''] ?a]"
    using df by (simp add: insights_def sort_by_def f)
  with i' f rest r df show ?thesis by simp
qed

lemma insights_ids:
  assumes "x \<in> set (insights (dedupeVideos videos) toks)"
  shows "\<exists>v\<in>set videos. has_id v \<and> videoId v = Some (insight_id x)"
proof -
  from assms insights_set obtain v where v: "v \<in> set (dedupeVideos videos)" and x: "x = to_insight toks v"
    by blast
  from v have "has_id v" "v \<in> set videos"
    using dedupeVideos_has_id dedupeVideos_subset by blast+
  moreover from \<open>has_id v\<close> x have "videoId v = Some (insight_id x)"
    by (auto simp: has_id_def to_insight_def or_else_def Let_def)
  ultimately show ?thesis by blast
qed

text \<open>
  C10. \<open>dedupeVideos\<close> drops every candidate whose identifier is missing or empty, so
  every insight carries the non-empty identifier of a candidate; and when no video of the
  three result sets has an identifier, the response is the 404 "No videos found", whatever
  the number of videos the provider returned.
\<close>

theorem dedupeVideos_drops_missing_ids:
  "(\<forall>v\<in>set (dedupeVideos videos). has_id v) \<and>
   (\<forall>v\<in>set videos. \<not> has_id v \<longrightarrow> v \<notin> set (dedupeVideos videos)) \<and>
   (\<forall>x\<in>set (insights (dedupeVideos videos) toks).
      \<exists>v\<in>set videos. has_id v \<and> videoId v = Some (insight_id x)) \<and>
   (\<forall>r qs. POST provider request = (Json r, qs) \<longrightarrow> (\<forall>x\<in>set (inspiration r). insight_id x \<noteq> [])) \<and>
   (topic body = Some t \<and> trim t \<noteq> [] \<and>
    provider (trim t) = Some p \<and> provider (trim t @ '' trending'') = Some tr \<and>
    provider (''best '' @ trim t) = Some e \<and> (\<forall>v\<in>set (p @ tr @ e). \<not> has_id v) \<longrightarrow>
      POST provider (Some body) =
        (ErrorJson 404 ''No videos found for the provided topic.'', provider_queries (trim t)))"
proof -
  have a: "\<forall>v\<in>set (dedupeVideos videos). has_id v"
    using dedupeVideos_has_id by blast
  have b: "\<forall>x\<in>set (insights (dedupeVideos videos) toks).
      \<exists>v\<in>set videos. has_id v \<and> videoId v = Some (insight_id x)"
    using insights_ids by blast
  have c: "\<forall>x\<in>set (inspiration r). insight_id x \<noteq> []" if "POST provider request = (Json r, qs)" for r qs
  proof
    fix x assume x: "x \<in> set (inspiration r)"
    from POST_Json[OF that] obtain raw tk where "inspiration r = insights (dedupeVideos raw) tk"
      by blast
    with x insights_ids[of x raw tk] show "insight_id x \<noteq> []" by (auto simp: has_id_def)
  qed
  have d: "POST provider (Some body) =
        (ErrorJson 404 ''No videos found for the provided topic.'', provider_queries (trim t))"
    if "topic body = Some t" "trim t \<noteq> []" "provider (trim t) = Some p"
      "provider (trim t @ '' trending'') = Some tr" "provider (''best '' @ trim t) = Some e"
      "\<forall>v\<in>set (p @ tr @ e). \<not> has_id v"
    using that(1-5) dedupeVideos_none[OF that(6)] by (rule POST_no_candidates)
  from a b c d show ?thesis by blast
qed

theorem dedupeVideos_drops_missing_ids_witness:
  "topic (example_request ''ai tools'') = Some ''ai tools'' \<and> trim ''ai tools'' = ''ai tools'' \<and>
   list_all (\<lambda>v. \<not> has_id v) [example_video None ''x'', example_video (Some []) ''y''] \<and>
   dedupeVideos [example_video None ''x'', example_video (Some []) ''y''] = [] \<and>
   POST (\<lambda>q. Some [example_video None ''x'', example_video (Some []) ''y''])
        (Some (example_request ''ai tools'')) =
     (ErrorJson 404 ''No videos found for the provided topic.'',
      [''ai tools'', ''ai tools trending'', ''best ai tools''])"
proof -
  let ?vs = "[example_video None ''x'', example_video (Some []) ''y'']"
  let ?p = "\<lambda>q :: string. Some ?vs"
  have t: "topic (example_request ''ai tools'') = Some ''ai tools''" "trim ''ai tools'' = ''ai tools''"
    by (simp add: example_request_def, code_simp)
  have h: "\<forall>v\<in>set (?vs @ ?vs @ ?vs). \<not> has_id v" "\<forall>v\<in>set ?vs. \<not> has_id v"
    by (simp_all add: has_id_def example_video_def)
  have q: "provider_queries ''ai tools'' = [''ai tools'', ''ai tools trending'', ''best ai tools'']"
    by (simp add: provider_queries_def)
  note th = dedupeVideos_drops_missing_ids[of ?vs "[]" ?p "Some (example_request ''ai tools'')"
      "example_request ''ai tools''" "''ai tools''" ?vs ?vs ?vs]
  from th t h have "POST ?p (Some (example_request ''ai tools'')) =
     (ErrorJson 404 ''No videos found for the provided topic.'', provider_queries ''ai tools'')"
    by simp
  moreover have "dedupeVideos ?vs = []" by code_simp
  ultimately show ?thesis using t h(2) q by (simp add: list_all_iff)
qed

end
